theory Spec2Isabelle
  imports Main
begin

section \<open>Python values used by the scraper\<close>

text \<open>
  A Python \<^verbatim>\<open>str\<close> scraped from the page is a sequence of Unicode code points.
  URLs and dictionary keys are program constants and are kept as \<^typ>\<open>string\<close>.
\<close>

type_synonym pystr = "nat list"

definition ascii :: "string \<Rightarrow> pystr" where
  "ascii s = map (\<lambda>c. of_char c) s"

datatype pyval = PyNone | PyStr pystr

text \<open>
  \<^verbatim>\<open>str.isspace\<close> on one code point, as \<^verbatim>\<open>str.split()\<close> uses it: the ASCII
  whitespace 0x09-0x0D, 0x1C-0x20 and the Unicode whitespace beyond ASCII.
\<close>

definition isspace :: "nat \<Rightarrow> bool" where
  "isspace c \<longleftrightarrow>
     (9 \<le> c \<and> c \<le> 13) \<or> (28 \<le> c \<and> c \<le> 32) \<or> c = 133 \<or> c = 160 \<or> c = 5760 \<or>
     (8192 \<le> c \<and> c \<le> 8202) \<or> c = 8232 \<or> c = 8233 \<or> c = 8239 \<or> c = 8287 \<or> c = 12288"

text \<open>
  \<^verbatim>\<open>text.split()\<close> with no separator: the maximal runs of non-whitespace, in order.
  \<open>split_acc w cs\<close> scans \<open>cs\<close> with the word \<open>w\<close> read so far.
\<close>

fun split_acc :: "pystr \<Rightarrow> pystr \<Rightarrow> pystr list" where
  "split_acc w [] = (if w = [] then [] else [w])"
| "split_acc w (c # cs) =
     (if isspace c then (if w = [] then split_acc [] cs else w # split_acc [] cs)
      else split_acc (w @ [c]) cs)"

definition py_split :: "pystr \<Rightarrow> pystr list" where
  "py_split text = split_acc [] text"

text \<open>\<^verbatim>\<open>sep.join(words)\<close>.\<close>

fun py_join :: "pystr \<Rightarrow> pystr list \<Rightarrow> pystr" where
  "py_join sep [] = []"
| "py_join sep [w] = w"
| "py_join sep (w # v # ws) = w @ sep @ py_join sep (v # ws)"

text \<open>\<^verbatim>\<open>x or y\<close> on strings: the empty string is the only falsy one.\<close>

definition py_or :: "pystr \<Rightarrow> pystr \<Rightarrow> pystr" where
  "py_or x y = (if x = [] then y else x)"

text \<open>\<^verbatim>\<open>str(i)\<close> of an int, as an f-string formats it: decimal, with a minus sign.\<close>

definition digit_char :: "nat \<Rightarrow> char" where
  "digit_char d = char_of (48 + d)"

fun digits :: "nat \<Rightarrow> string" where
  "digits n = (if n < 10 then [digit_char n] else digits (n div 10) @ [digit_char (n mod 10)])"

declare digits.simps [simp del]

text \<open>The value of a decimal digit, to read decimal text back.\<close>

definition digit_val :: "char \<Rightarrow> nat" where
  "digit_val c = of_char c - 48"

definition str_int :: "int \<Rightarrow> string" where
  "str_int i = (if i < 0 then CHR ''-'' # digits (nat (- i)) else digits (nat i))"

section \<open>Exceptions and outcomes of calls into the browser\<close>

text \<open>
  Every call the scraper makes on Selenium, the clock or the driver either returns or
  raises. The handlers of the source are all \<^verbatim>\<open>except Exception\<close>, so two classes of
  exception are told apart: \<open>Exception\<close> stands for any instance of Python's
  \<^verbatim>\<open>Exception\<close> (NoSuchElementException, TimeoutException, ...), \<open>KeyboardInterrupt\<close>
  for a \<^verbatim>\<open>BaseException\<close> outside it, which no handler of the source catches.
\<close>

datatype exn = Exception | KeyboardInterrupt

datatype 'a outcome = Returns 'a | Raises exn

definition obind :: "'a outcome \<Rightarrow> ('a \<Rightarrow> 'b outcome) \<Rightarrow> 'b outcome" where
  "obind m f = (case m of Returns x \<Rightarrow> f x | Raises e \<Rightarrow> Raises e)"

text \<open>
  One listing element (\<^verbatim>\<open>prop\<close>): the outcome of each call \<^verbatim>\<open>scrape_data\<close> makes on
  it, in the order of the source. A lookup is \<^verbatim>\<open>find_element(...)\<close> followed by
  \<^verbatim>\<open>.text\<close> (or \<^verbatim>\<open>.get_attribute('href')\<close>, which may return None).
\<close>

record web_element =
  scroll_into_view :: "unit outcome"
  pause :: "unit outcome"
  card_link :: "pyval outcome"
  card_status :: "pystr outcome"
  card_price :: "pystr outcome"
  meta_beds :: "pystr outcome"
  meta_baths :: "pystr outcome"
  meta_sqft :: "pystr outcome"
  meta_lot_size :: "pystr outcome"
  card_address :: "pystr outcome"

text \<open>
  One navigation attempt of \<^verbatim>\<open>load_page\<close>: the randomized sleep, \<^verbatim>\<open>driver.get(url)\<close>
  and the wait for the properties container.
\<close>

record attempt =
  delay :: "unit outcome"
  driver_get :: "unit outcome"
  wait_container :: "unit outcome"

text \<open>
  The browser behind \<^verbatim>\<open>self.driver\<close>, as an oracle: what attempt number \<open>retry\<close> on a
  URL does, which listing elements \<^verbatim>\<open>find_elements\<close> yields on the page the driver is
  at, and what \<^verbatim>\<open>driver.quit()\<close> does. Within one run every URL is loaded by one call
  of \<^verbatim>\<open>load_page\<close> only, so the pair (URL, retry) names one call.
\<close>

record browser =
  attempt_of :: "string \<Rightarrow> int \<Rightarrow> attempt"
  elements_at :: "string option \<Rightarrow> web_element list outcome"
  quit_outcome :: "unit outcome"

section \<open>The scraper's state\<close>

text \<open>A listing record is the dict literal of the source: its keys in insertion order.\<close>

type_synonym listing = "(string \<times> pyval) list"

record table =
  columns :: "string list"
  rows :: "pyval list list"

text \<open>
  Calls with an effect outside the object, oldest first: a navigation, the release of
  the browser, and the write of a CSV file (its name and the frame written).
\<close>

datatype event = Get string | Quit | ToCsv string table

record scraper =
  zipcode :: int
  page :: int
  data :: "listing list"
  location :: "string option"
  trace :: "event list"

text \<open>\<^verbatim>\<open>__init__\<close>: page 1, no data; the driver has not navigated yet.\<close>

definition RealtorScraper :: "int \<Rightarrow> scraper" where
  "RealtorScraper z = \<lparr>zipcode = z, page = 1, data = [], location = None, trace = []\<rparr>"

type_synonym 'a action = "scraper \<Rightarrow> 'a outcome \<times> scraper"

definition call :: "'a outcome \<Rightarrow> 'a action" where
  "call r s = (r, s)"

definition bind :: "'a action \<Rightarrow> ('a \<Rightarrow> 'b action) \<Rightarrow> 'b action" where
  "bind m f s = (case m s of (Returns x, s1) \<Rightarrow> f x s1 | (Raises e, s1) \<Rightarrow> (Raises e, s1))"

text \<open>
  \<^verbatim>\<open>try: body except Exception: handler\<close>: the handler runs on an \<open>Exception\<close> only.
\<close>

definition try_except :: "'a action \<Rightarrow> 'a action \<Rightarrow> 'a action" where
  "try_except body handler s =
     (case body s of
        (Returns x, s1) \<Rightarrow> (Returns x, s1)
      | (Raises Exception, s1) \<Rightarrow> handler s1
      | (Raises KeyboardInterrupt, s1) \<Rightarrow> (Raises KeyboardInterrupt, s1))"

text \<open>
  \<^verbatim>\<open>try: body finally: final\<close>: \<open>final\<close> always runs; if it raises, that exception
  replaces the outcome of the body, otherwise the body's outcome stands.
\<close>

definition try_finally :: "'a action \<Rightarrow> unit action \<Rightarrow> 'a action" where
  "try_finally body final s =
     (case body s of (r, s1) \<Rightarrow>
        (case final s1 of (Returns u, s2) \<Rightarrow> (r, s2) | (Raises e, s2) \<Rightarrow> (Raises e, s2)))"

section \<open>get_page_url\<close>

definition get_page_url :: "scraper \<Rightarrow> string" where
  "get_page_url s =
     ''https://www.realtor.com/realestateandhomes-search/'' @ str_int (zipcode s) @
     ''/pg-'' @ str_int (page s)"

section \<open>scrape_data\<close>

definition NA :: pystr where
  "NA = ascii ''N/A''"

text \<open>
  The body of the inner \<^verbatim>\<open>try\<close> up to the dict literal: the eight lookups in the order
  of the source, the first one that raises ends it.
\<close>

definition extract_listing :: "web_element \<Rightarrow> listing outcome" where
  "extract_listing prop =
     obind (card_link prop) (\<lambda>link.
     obind (card_status prop) (\<lambda>status.
     obind (card_price prop) (\<lambda>price.
     obind (meta_beds prop) (\<lambda>bed.
     obind (meta_baths prop) (\<lambda>bath.
     obind (meta_sqft prop) (\<lambda>sqft.
     obind (meta_lot_size prop) (\<lambda>lot_size.
     obind (card_address prop) (\<lambda>address_text.
       let address = py_join (ascii '' '') (py_split address_text) in
       Returns
         [(''Property Status'', PyStr status),
          (''Price'', PyStr price),
          (''Bed'', PyStr (py_or bed NA)),
          (''Bath'', PyStr (py_or bath NA)),
          (''Sqft'', PyStr (py_or sqft NA)),
          (''Lot Size'', PyStr (py_or lot_size NA)),
          (''Address'', PyStr address),
          (''Link'', link)]))))))))"

definition append_data :: "listing \<Rightarrow> unit action" where
  "append_data d s = (Returns (), s\<lparr>data := data s @ [d]\<rparr>)"

text \<open>A handler that only logs.\<close>

definition log_only :: "unit action" where
  "log_only s = (Returns (), s)"

text \<open>
  One iteration of \<^verbatim>\<open>for prop in properties\<close>: the scroll and the sleep stand outside
  the inner \<^verbatim>\<open>try\<close>, the lookups and the append inside it.
\<close>

definition scrape_prop :: "web_element \<Rightarrow> unit action" where
  "scrape_prop prop =
     bind (call (scroll_into_view prop)) (\<lambda>_.
     bind (call (pause prop)) (\<lambda>_.
     try_except (bind (call (extract_listing prop)) append_data) log_only))"

fun for_props :: "web_element list \<Rightarrow> unit action" where
  "for_props [] s = (Returns (), s)"
| "for_props (prop # rest) s =
     (case scrape_prop prop s of
        (Returns u, s1) \<Rightarrow> for_props rest s1
      | (Raises e, s1) \<Rightarrow> (Raises e, s1))"

definition scrape_data :: "browser \<Rightarrow> unit action" where
  "scrape_data b =
     try_except
       (\<lambda>s. bind (call (elements_at b (location s))) for_props s)
       log_only"

section \<open>load_page\<close>

text \<open>\<^verbatim>\<open>self.driver.get(url)\<close>: the driver is at \<open>url\<close> from now on.\<close>

definition get_url :: "browser \<Rightarrow> string \<Rightarrow> int \<Rightarrow> unit action" where
  "get_url b url retry s =
     (driver_get (attempt_of b url retry), s\<lparr>location := Some url, trace := trace s @ [Get url]\<rparr>)"

text \<open>
  The body of \<^verbatim>\<open>for retry in range(1, retries + 1)\<close>. \<open>Returns True\<close>: the
  \<^verbatim>\<open>return True\<close> of the \<^verbatim>\<open>try\<close> was reached. \<open>Returns False\<close>: the handler logged
  the failure and the loop goes on.
\<close>

definition attempt_load :: "browser \<Rightarrow> string \<Rightarrow> int \<Rightarrow> bool action" where
  "attempt_load b url retry =
     try_except
       (bind (call (delay (attempt_of b url retry))) (\<lambda>_.
        bind (get_url b url retry) (\<lambda>_.
        bind (call (wait_container (attempt_of b url retry))) (\<lambda>_.
        call (Returns True)))))
       (call (Returns False))"

fun for_retry :: "browser \<Rightarrow> string \<Rightarrow> int list \<Rightarrow> bool action" where
  "for_retry b url [] s = (Returns False, s)"
| "for_retry b url (retry # rest) s =
     (case attempt_load b url retry s of
        (Returns True, s1) \<Rightarrow> (Returns True, s1)
      | (Returns False, s1) \<Rightarrow> for_retry b url rest s1
      | (Raises e, s1) \<Rightarrow> (Raises e, s1))"

definition load_page :: "browser \<Rightarrow> int \<Rightarrow> bool action" where
  "load_page b retries s = for_retry b (get_page_url s) [1..retries] s"

section \<open>run\<close>

text \<open>
  The body of \<^verbatim>\<open>while self.page <= 5\<close>. \<open>Returns False\<close> is the \<^verbatim>\<open>break\<close>,
  \<open>Returns True\<close> the end of an iteration that incremented the page.
\<close>

definition next_page :: "bool action" where
  "next_page s = (Returns True, s\<lparr>page := page s + 1\<rparr>)"

definition loop_body :: "browser \<Rightarrow> bool action" where
  "loop_body b =
     bind (load_page b 3) (\<lambda>loaded.
       if \<not> loaded then call (Returns False)
       else bind (scrape_data b) (\<lambda>_. next_page))"

definition driver_quit :: "browser \<Rightarrow> unit action" where
  "driver_quit b s = (quit_outcome b, s\<lparr>trace := trace s @ [Quit]\<rparr>)"

text \<open>
  \<^verbatim>\<open>pd.DataFrame(list_of_dicts)\<close>: the columns are the keys in first-seen order, one
  row per dict, a missing key giving an empty cell. \<^verbatim>\<open>to_csv(name, index=False)\<close>
  writes the column names as the header row and one CSV record per row of the frame.
\<close>

fun first_seen :: "'a list \<Rightarrow> 'a list \<Rightarrow> 'a list" where
  "first_seen seen [] = seen"
| "first_seen seen (k # ks) = first_seen (if k \<in> set seen then seen else seen @ [k]) ks"

definition DataFrame :: "listing list \<Rightarrow> table" where
  "DataFrame records =
     (let cols = first_seen [] (concat (map (map fst) records)) in
      \<lparr>columns = cols,
       rows = map (\<lambda>d. map (\<lambda>c. case map_of d c of Some v \<Rightarrow> v | None \<Rightarrow> PyNone) cols) records\<rparr>)"

definition to_csv :: "string \<Rightarrow> table \<Rightarrow> unit action" where
  "to_csv name df s = (Returns (), s\<lparr>trace := trace s @ [ToCsv name df]\<rparr>)"

definition save :: "unit action" where
  "save s = (if data s \<noteq> [] then to_csv ''output.csv'' (DataFrame (data s)) s else (Returns (), s))"

section \<open>What the steps leave unchanged\<close>

text \<open>
  A relation between the state before and after that every step keeps is kept by the
  combinators and the loops built from the steps.
\<close>

lemma bind_rel:
  assumes m: "\<And>s. R s (snd (m s))" and f: "\<And>x s. R s (snd (f x s))"
    and trans: "\<And>a b c. R a b \<Longrightarrow> R b c \<Longrightarrow> R a c"
  shows "R s (snd (bind m f s))"
proof (cases "m s")
  case (Pair r s1)
  have step: "R s s1" using m [of s] Pair by simp
  show ?thesis
  proof (cases r)
    case (Returns x)
    have "R s1 (snd (f x s1))" by (rule f)
    with step have "R s (snd (f x s1))" by (rule trans)
    then show ?thesis using Pair Returns by (simp add: bind_def)
  next
    case (Raises e)
    then show ?thesis using Pair step by (simp add: bind_def)
  qed
qed

lemma try_except_rel:
  assumes m: "\<And>s. R s (snd (m s))" and h: "\<And>s. R s (snd (h s))"
    and trans: "\<And>a b c. R a b \<Longrightarrow> R b c \<Longrightarrow> R a c"
  shows "R s (snd (try_except m h s))"
proof (cases "m s")
  case (Pair r s1)
  have step: "R s s1" using m [of s] Pair by simp
  have "R s1 (snd (h s1))" by (rule h)
  with step have "R s (snd (h s1))" by (rule trans)
  then show ?thesis using Pair step
    by (simp add: try_except_def split: outcome.splits exn.splits)
qed

lemma try_finally_rel:
  assumes m: "\<And>s. R s (snd (m s))" and h: "\<And>s. R s (snd (h s))"
    and trans: "\<And>a b c. R a b \<Longrightarrow> R b c \<Longrightarrow> R a c"
  shows "R s (snd (try_finally m h s))"
proof (cases "m s")
  case (Pair r s1)
  have step: "R s s1" using m [of s] Pair by simp
  have "R s1 (snd (h s1))" by (rule h)
  with step have "R s (snd (h s1))" by (rule trans)
  then show ?thesis using Pair
    by (cases "h s1") (simp add: try_finally_def split: outcome.splits)
qed

lemma for_props_rel:
  assumes p: "\<And>p s. R s (snd (scrape_prop p s))" and refl: "\<And>s. R s s"
    and trans: "\<And>a b c. R a b \<Longrightarrow> R b c \<Longrightarrow> R a c"
  shows "R s (snd (for_props ps s))"
proof (induction ps arbitrary: s)
  case Nil
  show ?case by (simp add: refl)
next
  case (Cons p ps)
  show ?case
  proof (cases "scrape_prop p s")
    case (Pair r s1)
    have step: "R s s1" using p [of s p] Pair by simp
    show ?thesis
    proof (cases r)
      case (Returns u)
      have "R s (snd (for_props ps s1))" using step Cons.IH by (rule trans)
      then show ?thesis using Pair Returns by simp
    next
      case (Raises e)
      then show ?thesis using Pair step by simp
    qed
  qed
qed

text \<open>A field of the state that only the accumulator's append could touch.\<close>

lemma scrape_prop_keeps:
  assumes "\<And>s d. g (s\<lparr>data := d\<rparr>) = g s"
  shows "g (snd (scrape_prop p s)) = g s"
  using assms
  by (simp add: scrape_prop_def bind_def call_def try_except_def append_data_def log_only_def
      split: outcome.splits exn.splits)

lemma scrape_data_keeps:
  assumes g: "\<And>s d. g (s\<lparr>data := d\<rparr>) = g s"
  shows "g (snd (scrape_data b s)) = g s"
proof -
  have fp: "\<And>ps s. g (snd (for_props ps s)) = g s"
    by (rule for_props_rel [where R = "\<lambda>a b. g b = g a"]) (simp_all add: scrape_prop_keeps g)
  have body: "\<And>s. g (snd (bind (call (elements_at b (location s))) for_props s)) = g s"
    by (rule bind_rel [where R = "\<lambda>a b. g b = g a"]) (simp_all add: fp call_def)
  show ?thesis unfolding scrape_data_def
    by (rule try_except_rel [where R = "\<lambda>a b. g b = g a"]) (simp_all add: body log_only_def)
qed

lemma scrape_data_page: "page (snd (scrape_data b s)) = page s"
  by (rule scrape_data_keeps) simp

lemma for_retry_rel:
  assumes p: "\<And>k s. R s (snd (attempt_load b url k s))" and refl: "\<And>s. R s s"
    and trans: "\<And>a b c. R a b \<Longrightarrow> R b c \<Longrightarrow> R a c"
  shows "R s (snd (for_retry b url ks s))"
proof (induction ks arbitrary: s)
  case Nil
  show ?case by (simp add: refl)
next
  case (Cons k ks)
  show ?case
  proof (cases "attempt_load b url k s")
    case (Pair r s1)
    have step: "R s s1" using p [of s k] Pair by simp
    have "R s (snd (for_retry b url ks s1))" using step Cons.IH by (rule trans)
    then show ?thesis using Pair step by (simp split: outcome.splits bool.splits)
  qed
qed

lemma attempt_load_keeps:
  assumes "\<And>s l t. g (s\<lparr>location := l, trace := t\<rparr>) = g s"
  shows "g (snd (attempt_load b url k s)) = g s"
  using assms
  by (simp add: attempt_load_def bind_def call_def try_except_def get_url_def
      split: outcome.splits exn.splits)

lemma load_page_keeps:
  assumes g: "\<And>s l t. g (s\<lparr>location := l, trace := t\<rparr>) = g s"
  shows "g (snd (load_page b n s)) = g s"
  unfolding load_page_def
  by (rule for_retry_rel [where R = "\<lambda>a b. g b = g a"]) (simp_all add: attempt_load_keeps g)

lemma loop_body_continues:
  assumes "loop_body b s = (Returns True, s1)"
  shows "page s1 = page s + 1"
proof -
  obtain r s0 where l: "load_page b 3 s = (r, s0)" by (cases "load_page b 3 s")
  have p0: "page s0 = page s" using load_page_keeps [of page b 3 s] l by simp
  obtain r2 s2 where d: "scrape_data b s0 = (r2, s2)" by (cases "scrape_data b s0")
  have p2: "page s2 = page s0" using scrape_data_page [of b s0] d by simp
  show ?thesis using assms l d p0 p2
    by (auto simp: loop_body_def bind_def call_def next_page_def split: outcome.splits if_splits)
qed

section \<open>The loop of run\<close>

function while_page:: "browser \<Rightarrow> unit action" where
  "while_page b s =
     (if page s \<le> 5 then
        (case loop_body b s of
           (Returns True, s1) \<Rightarrow> while_page b s1
         | (Returns False, s1) \<Rightarrow> (Returns (), s1)
         | (Raises e, s1) \<Rightarrow> (Raises e, s1))
      else (Returns (), s))"
  by pat_completeness auto
termination
  by (relation "measure (\<lambda>(b, s). nat (6 - page s))") (auto dest: loop_body_continues [OF sym])

declare while_page.simps [simp del]

definition run :: "browser \<Rightarrow> unit action" where
  "run b = bind (try_finally (while_page b) (driver_quit b)) (\<lambda>_. save)"

section \<open>Vocabulary of the properties\<close>

text \<open>The keys of the dict literal of \<^verbatim>\<open>scrape_data\<close>, in the order it writes them.\<close>

abbreviation field_names :: "string list" where
  "field_names \<equiv> [''Property Status'', ''Price'', ''Bed'', ''Bath'', ''Sqft'', ''Lot Size'',
     ''Address'', ''Link'']"

text \<open>
  A KeyboardInterrupt arrives during one of the calls made on a listing element, or
  during the calls of a whole page.
\<close>

definition interrupted :: "web_element \<Rightarrow> bool" where
  "interrupted p \<longleftrightarrow>
     scroll_into_view p = Raises KeyboardInterrupt \<or> pause p = Raises KeyboardInterrupt \<or>
     card_link p = Raises KeyboardInterrupt \<or> card_status p = Raises KeyboardInterrupt \<or>
     card_price p = Raises KeyboardInterrupt \<or> meta_beds p = Raises KeyboardInterrupt \<or>
     meta_baths p = Raises KeyboardInterrupt \<or> meta_sqft p = Raises KeyboardInterrupt \<or>
     meta_lot_size p = Raises KeyboardInterrupt \<or> card_address p = Raises KeyboardInterrupt"

definition page_interrupted :: "web_element list outcome \<Rightarrow> bool" where
  "page_interrupted found =
     (case found of Returns props \<Rightarrow> list_ex interrupted props | Raises e \<Rightarrow> e = KeyboardInterrupt)"

text \<open>
  A navigation attempt loads the page when its three calls return; it fails when the
  first of them that does not return raises an \<open>Exception\<close>.
\<close>

definition loads :: "attempt \<Rightarrow> bool" where
  "loads a \<longleftrightarrow> delay a = Returns () \<and> driver_get a = Returns () \<and> wait_container a = Returns ()"

definition fails :: "attempt \<Rightarrow> bool" where
  "fails a \<longleftrightarrow>
     delay a = Raises Exception \<or>
     (delay a = Returns () \<and>
       (driver_get a = Raises Exception \<or>
        (driver_get a = Returns () \<and> wait_container a = Raises Exception)))"

text \<open>The CSV files written, read off a trace: the name and the frame of each.\<close>

fun written :: "event list \<Rightarrow> (string \<times> table) list" where
  "written [] = []"
| "written (ToCsv name df # es) = (name, df) # written es"
| "written (Get url # es) = written es"
| "written (Quit # es) = written es"

text \<open>
  The loop of \<^verbatim>\<open>run\<close> with a budget of iterations, to count them: the same tests and
  the same body as \<open>while_page\<close>, and \<open>None\<close> when the budget is used up before the
  loop has ended.
\<close>

fun bounded_loop :: "nat \<Rightarrow> browser \<Rightarrow> scraper \<Rightarrow> (unit outcome \<times> scraper) option" where
  "bounded_loop 0 b s = (if page s \<le> 5 then None else Some (Returns (), s))"
| "bounded_loop (Suc n) b s =
     (if page s \<le> 5 then
        (case loop_body b s of
           (Returns True, s1) \<Rightarrow> bounded_loop n b s1
         | (Returns False, s1) \<Rightarrow> Some (Returns (), s1)
         | (Raises e, s1) \<Rightarrow> Some (Raises e, s1))
      else Some (Returns (), s))"

section \<open>Example listings and browsers\<close>

text \<open>
  A listing with every element present, whose bath and lot-size texts are empty and
  whose address holds a double space.
\<close>

definition full_listing :: web_element where
  "full_listing =
     \<lparr>scroll_into_view = Returns (), pause = Returns (),
      card_link = Returns (PyStr (ascii ''https://www.realtor.com/d/12-Main-St'')),
      card_status = Returns (ascii ''House for sale''),
      card_price = Returns (ascii ''$450,000''),
      meta_beds = Returns (ascii ''3''),
      meta_baths = Returns [],
      meta_sqft = Returns (ascii ''1,850''),
      meta_lot_size = Returns [],
      card_address = Returns (ascii ''12 Main St,  Frisco, TX 75034'')\<rparr>"

text \<open>The same listing without its beds element (NoSuchElementException), as a plot of land has none.\<close>

definition land_listing :: web_element where
  "land_listing = full_listing\<lparr>meta_beds := Raises Exception\<rparr>"

text \<open>The same listing without its price element.\<close>

definition unpriced_listing :: web_element where
  "unpriced_listing = full_listing\<lparr>card_price := Raises Exception\<rparr>"

text \<open>A listing whose elements are all present and mostly empty.\<close>

definition blank_listing :: web_element where
  "blank_listing =
     \<lparr>scroll_into_view = Returns (), pause = Returns (),
      card_link = Returns (PyStr []),
      card_status = Returns [],
      card_price = Returns [],
      meta_beds = Returns (ascii ''4''),
      meta_baths = Returns [],
      meta_sqft = Returns [],
      meta_lot_size = Returns (ascii ''0.25''),
      card_address = Returns []\<rparr>"

definition ok_attempt :: attempt where
  "ok_attempt = \<lparr>delay = Returns (), driver_get = Returns (), wait_container = Returns ()\<rparr>"

text \<open>The container does not appear within the ten seconds: TimeoutException.\<close>

definition timeout_attempt :: attempt where
  "timeout_attempt =
     \<lparr>delay = Returns (), driver_get = Returns (), wait_container = Raises Exception\<rparr>"

text \<open>A browser whose pages all load at once and show the land listing only.\<close>

definition land_page :: browser where
  "land_page =
     \<lparr>attempt_of = (\<lambda>url retry. ok_attempt),
      elements_at = (\<lambda>loc. Returns [land_listing]),
      quit_outcome = Returns ()\<rparr>"

text \<open>A browser whose pages load at the second attempt only.\<close>

definition flaky :: browser where
  "flaky =
     \<lparr>attempt_of = (\<lambda>url retry. if retry = 1 then timeout_attempt else ok_attempt),
      elements_at = (\<lambda>loc. Returns [full_listing]),
      quit_outcome = Returns ()\<rparr>"

text \<open>A browser on which no page ever loads.\<close>

definition dead :: browser where
  "dead =
     \<lparr>attempt_of = (\<lambda>url retry. timeout_attempt),
      elements_at = (\<lambda>loc. Returns [full_listing]),
      quit_outcome = Returns ()\<rparr>"

text \<open>A listing that has gone stale: scrolling to it raises (StaleElementReferenceException).\<close>

definition stale_listing :: web_element where
  "stale_listing = full_listing\<lparr>scroll_into_view := Raises Exception\<rparr>"

text \<open>A browser whose pages all load at once and show five listings, the fourth one stale.\<close>

definition shop :: browser where
  "shop =
     \<lparr>attempt_of = (\<lambda>url retry. ok_attempt),
      elements_at = (\<lambda>loc. Returns [land_listing, full_listing, unpriced_listing, stale_listing,
        full_listing]),
      quit_outcome = Returns ()\<rparr>"

text \<open>Pages without any listing element, and pages on which \<^verbatim>\<open>find_elements\<close> raises.\<close>

definition empty_page :: browser where
  "empty_page =
     \<lparr>attempt_of = (\<lambda>url retry. ok_attempt),
      elements_at = (\<lambda>loc. Returns []),
      quit_outcome = Returns ()\<rparr>"

definition broken_page :: browser where
  "broken_page =
     \<lparr>attempt_of = (\<lambda>url retry. ok_attempt),
      elements_at = (\<lambda>loc. Raises Exception),
      quit_outcome = Returns ()\<rparr>"

text \<open>A run that the user interrupts during the sleep before the second listing.\<close>

definition ctrl_c :: browser where
  "ctrl_c =
     \<lparr>attempt_of = (\<lambda>url retry. ok_attempt),
      elements_at = (\<lambda>loc. Returns [full_listing, full_listing\<lparr>pause := Raises KeyboardInterrupt\<rparr>]),
      quit_outcome = Returns ()\<rparr>"

section \<open>Properties of get_page_url\<close>

lemma digit_val_digit_char: "d < 10 \<Longrightarrow> digit_val (digit_char d) = d"
  by (simp add: digit_val_def digit_char_def)

lemma undigits_digits: "foldl (\<lambda>a c. 10 * a + digit_val c) 0 (digits n) = n"
proof (induction n rule: digits.induct)
  case (1 n)
  show ?case
  proof (cases "n < 10")
    case True
    then show ?thesis by (subst digits.simps) (simp add: digit_val_digit_char)
  next
    case False
    then have "foldl (\<lambda>a c. 10 * a + digit_val c) 0 (digits (n div 10)) = n div 10"
      using 1 by simp
    with False show ?thesis by (subst digits.simps) (simp add: digit_val_digit_char)
  qed
qed

lemma digits_inj:
  assumes "digits m = digits n"
  shows "m = n"
proof -
  have "foldl (\<lambda>a c. 10 * a + digit_val c) 0 (digits m) =
        foldl (\<lambda>a c. 10 * a + digit_val c) 0 (digits n)"
    by (simp only: assms)
  then show ?thesis by (simp only: undigits_digits)
qed

lemma of_char_digit_char: "d < 10 \<Longrightarrow> (of_char (digit_char d) :: nat) = 48 + d"
  by (simp add: digit_char_def)

lemma digit_char_range: "d < 10 \<Longrightarrow> digit_char d \<noteq> CHR ''/'' \<and> digit_char d \<noteq> CHR ''-''"
proof -
  assume d: "d < 10"
  have "(of_char (digit_char d) :: nat) \<noteq> of_char CHR ''/''"
    and "(of_char (digit_char d) :: nat) \<noteq> of_char CHR ''-''"
    using d by (simp_all add: of_char_digit_char)
  then show ?thesis by auto
qed

lemma digits_chars: "c \<in> set (digits n) \<Longrightarrow> c \<noteq> CHR ''/'' \<and> c \<noteq> CHR ''-''"
proof (induction n rule: digits.induct)
  case (1 n)
  show ?case
  proof (cases "n < 10")
    case True
    with 1(2) digit_char_range [of n] show ?thesis by (subst (asm) digits.simps) auto
  next
    case False
    have "n mod 10 < 10" by simp
    with False 1 digit_char_range [of "n mod 10"] show ?thesis
      by (subst (asm) (2) digits.simps) auto
  qed
qed

lemma digits_nonempty: "digits n \<noteq> []"
  by (subst digits.simps) simp


lemma str_int_chars: "CHR ''/'' \<notin> set (str_int i)"
  using digits_chars by (auto simp: str_int_def)

lemma str_int_inj:
  assumes "str_int i = str_int j"
  shows "i = j"
proof -
  have hd_digits: "\<And>n. hd (digits n) \<noteq> CHR ''-''"
    using digits_chars digits_nonempty by (metis hd_in_set)
  show ?thesis
  proof (cases "i < 0")
    case True
    show ?thesis
    proof (cases "j < 0")
      case True
      with \<open>i < 0\<close> assms have "digits (nat (- i)) = digits (nat (- j))"
        by (simp add: str_int_def)
      then have "nat (- i) = nat (- j)" by (rule digits_inj)
      with True \<open>i < 0\<close> show ?thesis by simp
    next
      case False
      with \<open>i < 0\<close> assms have "CHR ''-'' # digits (nat (- i)) = digits (nat j)"
        by (simp add: str_int_def)
      then have "hd (digits (nat j)) = CHR ''-''" by (metis list.sel(1))
      with hd_digits show ?thesis by simp
    qed
  next
    case False
    show ?thesis
    proof (cases "j < 0")
      case True
      with False assms have "digits (nat i) = CHR ''-'' # digits (nat (- j))"
        by (simp add: str_int_def)
      then have "hd (digits (nat i)) = CHR ''-''" by (metis list.sel(1))
      with hd_digits show ?thesis by simp
    next
      case False
      with \<open>\<not> i < 0\<close> assms have "digits (nat i) = digits (nat j)"
        by (simp add: str_int_def)
      then have "nat i = nat j" by (rule digits_inj)
      with False \<open>\<not> i < 0\<close> show ?thesis by simp
    qed
  qed
qed

text \<open>Splitting at the first occurrence of a separator that the left part does not hold.\<close>

lemma split_at_sep:
  assumes "x \<notin> set A" and "x \<notin> set A'" and "A @ x # R = A' @ x # R'"
  shows "A = A' \<and> R = R'"
proof -
  have "takeWhile (\<lambda>c. c \<noteq> x) (A @ x # R) = A" using assms(1) by (auto simp: takeWhile_tail)
  moreover have "takeWhile (\<lambda>c. c \<noteq> x) (A' @ x # R') = A'" using assms(2) by (auto simp: takeWhile_tail)
  ultimately have "A = A'" using assms(3) by simp
  with assms(3) show ?thesis by simp
qed

lemma base_length: "length ''https://www.realtor.com/realestateandhomes-search/'' = 50"
  by simp

lemma url_prefix: "take 50 (get_page_url s) = ''https://www.realtor.com/realestateandhomes-search/''"
  unfolding get_page_url_def by (simp only: take_append base_length) simp

lemma url_suffix: "drop 50 (get_page_url s) = str_int (zipcode s) @ ''/pg-'' @ str_int (page s)"
  unfolding get_page_url_def by (simp only: drop_append base_length) simp


lemma url_inj:
  assumes "get_page_url s = get_page_url s'"
  shows "zipcode s = zipcode s' \<and> page s = page s'"
proof -
  from assms have "drop 50 (get_page_url s) = drop 50 (get_page_url s')" by simp
  then have "str_int (zipcode s) @ CHR ''/'' # (''pg-'' @ str_int (page s)) =
      str_int (zipcode s') @ CHR ''/'' # (''pg-'' @ str_int (page s'))"
    by (simp only: url_suffix) simp
  then have "str_int (zipcode s) = str_int (zipcode s') \<and>
      ''pg-'' @ str_int (page s) = ''pg-'' @ str_int (page s')"
    by (rule split_at_sep [OF str_int_chars str_int_chars])
  then show ?thesis using str_int_inj by auto
qed

text \<open>
  Claim C6. The URL is a function of the ZIP code and the page number and embeds each
  once, at a fixed place of the fixed base path: the first 50 characters are the base
  path, the decimal text of the ZIP code follows up to the next slash, and what follows
  it is \<open>/pg-\<close> and the decimal text of the page number, up to the end. The two
  numbers are read back from the URL: two states give the same URL exactly when they
  agree on both.
\<close>

theorem get_page_url_embeds:
  "take 50 (get_page_url s) = ''https://www.realtor.com/realestateandhomes-search/'' \<and>
   takeWhile (\<lambda>c. c \<noteq> CHR ''/'') (drop 50 (get_page_url s)) = str_int (zipcode s) \<and>
   drop (50 + length (str_int (zipcode s))) (get_page_url s) = ''/pg-'' @ str_int (page s) \<and>
   (get_page_url s = get_page_url s' \<longleftrightarrow> zipcode s = zipcode s' \<and> page s = page s')"
proof -
  have tw: "takeWhile (\<lambda>c. c \<noteq> CHR ''/'') (drop 50 (get_page_url s)) = str_int (zipcode s)"
    using str_int_chars [of "zipcode s"] by (auto simp: url_suffix takeWhile_tail)
  have "drop (50 + length (str_int (zipcode s))) (get_page_url s) =
      drop (length (str_int (zipcode s))) (drop 50 (get_page_url s))"
    by (simp add: add.commute)
  then have dr: "drop (50 + length (str_int (zipcode s))) (get_page_url s) = ''/pg-'' @ str_int (page s)"
    by (simp only: url_suffix) simp
  have eq: "get_page_url s = get_page_url s'" if "zipcode s = zipcode s'" and "page s = page s'"
    using that by (simp only: get_page_url_def)
  show ?thesis using url_prefix tw dr eq url_inj by blast
qed

section \<open>Properties of scrape_data, load_page and run\<close>

subsection \<open>One listing element\<close>

lemma obind_Returns [simp]: "obind (Returns x) f = f x"
  by (simp add: obind_def)

lemma obind_Raises [simp]: "obind (Raises e) f = Raises e"
  by (simp add: obind_def)

lemma not_interrupt_cases:
  assumes "r \<noteq> Raises KeyboardInterrupt"
  obtains x where "r = Returns x" | "r = Raises Exception"
  using assms by (cases r) (auto intro: exn.exhaust)

lemma extract_listing_returns:
  assumes "card_link p = Returns link" and "card_status p = Returns status"
    and "card_price p = Returns price" and "meta_beds p = Returns bed"
    and "meta_baths p = Returns bath" and "meta_sqft p = Returns sqft"
    and "meta_lot_size p = Returns lot_size" and "card_address p = Returns address"
  shows "extract_listing p = Returns
     [(''Property Status'', PyStr status), (''Price'', PyStr price),
      (''Bed'', PyStr (py_or bed NA)), (''Bath'', PyStr (py_or bath NA)),
      (''Sqft'', PyStr (py_or sqft NA)), (''Lot Size'', PyStr (py_or lot_size NA)),
      (''Address'', PyStr (py_join (ascii '' '') (py_split address))), (''Link'', link)]"
  by (simp add: extract_listing_def assms)

lemma extract_listing_fails:
  assumes ni: "\<not> interrupted p"
    and fails: "card_link p = Raises Exception \<or> card_status p = Raises Exception \<or>
      card_price p = Raises Exception \<or> meta_beds p = Raises Exception \<or>
      meta_baths p = Raises Exception \<or> meta_sqft p = Raises Exception \<or>
      meta_lot_size p = Raises Exception \<or> card_address p = Raises Exception"
  shows "extract_listing p = Raises Exception"
proof -
  have n: "card_link p \<noteq> Raises KeyboardInterrupt" "card_status p \<noteq> Raises KeyboardInterrupt"
    "card_price p \<noteq> Raises KeyboardInterrupt" "meta_beds p \<noteq> Raises KeyboardInterrupt"
    "meta_baths p \<noteq> Raises KeyboardInterrupt" "meta_sqft p \<noteq> Raises KeyboardInterrupt"
    "meta_lot_size p \<noteq> Raises KeyboardInterrupt" "card_address p \<noteq> Raises KeyboardInterrupt"
    using ni by (simp_all add: interrupted_def)
  show ?thesis
  proof (cases rule: not_interrupt_cases [OF n(1)])
    case 2 then show ?thesis by (simp add: extract_listing_def)
  next
    case l: (1 link)
    show ?thesis
    proof (cases rule: not_interrupt_cases [OF n(2)])
      case 2 then show ?thesis by (simp add: extract_listing_def l)
    next
      case st: (1 status)
      show ?thesis
      proof (cases rule: not_interrupt_cases [OF n(3)])
        case 2 then show ?thesis by (simp add: extract_listing_def l st)
      next
        case pr: (1 price)
        show ?thesis
        proof (cases rule: not_interrupt_cases [OF n(4)])
          case 2 then show ?thesis by (simp add: extract_listing_def l st pr)
        next
          case be: (1 bed)
          show ?thesis
          proof (cases rule: not_interrupt_cases [OF n(5)])
            case 2 then show ?thesis by (simp add: extract_listing_def l st pr be)
          next
            case ba: (1 bath)
            show ?thesis
            proof (cases rule: not_interrupt_cases [OF n(6)])
              case 2 then show ?thesis by (simp add: extract_listing_def l st pr be ba)
            next
              case sq: (1 sqft)
              show ?thesis
              proof (cases rule: not_interrupt_cases [OF n(7)])
                case 2 then show ?thesis by (simp add: extract_listing_def l st pr be ba sq)
              next
                case lo: (1 lot_size)
                show ?thesis
                proof (cases rule: not_interrupt_cases [OF n(8)])
                  case 2 then show ?thesis by (simp add: extract_listing_def l st pr be ba sq lo)
                next
                  case (1 address)
                  with fails l st pr be ba sq lo show ?thesis by simp
                qed
              qed
            qed
          qed
        qed
      qed
    qed
  qed
qed

lemma scrape_prop_reached:
  assumes "scroll_into_view p = Returns ()" and "pause p = Returns ()"
  shows "scrape_prop p s =
     (case extract_listing p of
        Returns d \<Rightarrow> (Returns (), s\<lparr>data := data s @ [d]\<rparr>)
      | Raises Exception \<Rightarrow> (Returns (), s)
      | Raises KeyboardInterrupt \<Rightarrow> (Raises KeyboardInterrupt, s))"
  by (simp add: scrape_prop_def bind_def call_def try_except_def append_data_def log_only_def assms
      split: outcome.splits exn.splits)

text \<open>
  Claim C2. A listing element that is reached (the scroll and the sleep return, and no
  interrupt arrives) and whose link, status, price or address lookup fails contributes
  no record: the step leaves the state as it was, and the loop goes on with the
  remaining listings exactly as if the element had not been there.
\<close>

theorem failed_lookup_excludes_listing:
  assumes "scroll_into_view p = Returns ()" and "pause p = Returns ()" and "\<not> interrupted p"
    and "card_link p = Raises Exception \<or> card_status p = Raises Exception \<or>
         card_price p = Raises Exception \<or> card_address p = Raises Exception"
  shows "scrape_prop p s = (Returns (), s) \<and> for_props (p # rest) s = for_props rest s"
proof -
  have "extract_listing p = Raises Exception"
    using assms(3,4) by (intro extract_listing_fails) auto
  then have "scrape_prop p s = (Returns (), s)"
    by (simp add: scrape_prop_reached assms(1,2))
  then show ?thesis by simp
qed

theorem failed_lookup_excludes_listing_witness:
  "for_props [unpriced_listing, full_listing] (RealtorScraper 75034) =
   for_props [full_listing] (RealtorScraper 75034) \<and> 
   scrape_prop unpriced_listing (RealtorScraper 75034) = (Returns (), RealtorScraper 75034)"
  using failed_lookup_excludes_listing [of unpriced_listing "RealtorScraper 75034" "[full_listing]"]
  by (simp add: unpriced_listing_def full_listing_def interrupted_def)

text \<open>
  Claim C1 fails as stated. On a page whose only listing lacks nothing but its beds
  element, \<^verbatim>\<open>scrape_data\<close> returns with the accumulator still empty: no record with a
  placeholder is appended.
\<close>

theorem meta_lookup_failure_counterexample:
  "card_link land_listing \<noteq> Raises Exception \<and> card_status land_listing \<noteq> Raises Exception \<and>
   card_price land_listing \<noteq> Raises Exception \<and> card_address land_listing \<noteq> Raises Exception \<and>
   meta_beds land_listing = Raises Exception \<and>
   elements_at land_page None = Returns [land_listing] \<and>
   scrape_data land_page (RealtorScraper 75034) = (Returns (), RealtorScraper 75034) \<and>
   data (RealtorScraper 75034) = []"
  by (simp add: land_page_def land_listing_def full_listing_def RealtorScraper_def
      scrape_data_def try_except_def bind_def call_def scrape_prop_def extract_listing_def log_only_def)

text \<open>
  Claim C1, as amended. The eight lookups stand in one \<^verbatim>\<open>try\<close>, so for a listing that
  is reached and whose link, status and price lookups succeed: if the bed, bath, sqft or
  lot-size lookup fails, no record is appended and the loop goes on with the remaining
  listings; if all the lookups succeed, one record is appended that holds \<open>N/A\<close> in
  exactly those of the bed, bath, sqft and lot-size fields whose text is empty, the
  extracted values in the other fields, and the address with its whitespace normalised.
\<close>

theorem meta_lookup_failure_skips_listing:
  assumes "scroll_into_view p = Returns ()" and "pause p = Returns ()" and "\<not> interrupted p"
    and "card_link p = Returns link" and "card_status p = Returns status"
    and "card_price p = Returns price"
  shows
    "(meta_beds p = Raises Exception \<or> meta_baths p = Raises Exception \<or>
      meta_sqft p = Raises Exception \<or> meta_lot_size p = Raises Exception \<longrightarrow>
        scrape_prop p s = (Returns (), s) \<and> for_props (p # rest) s = for_props rest s) \<and>
     (\<forall>bed bath sqft lot_size address.
        meta_beds p = Returns bed \<and> meta_baths p = Returns bath \<and> meta_sqft p = Returns sqft \<and>
        meta_lot_size p = Returns lot_size \<and> card_address p = Returns address \<longrightarrow>
        for_props (p # rest) s = for_props rest (s\<lparr>data := data s @
          [[(''Property Status'', PyStr status), (''Price'', PyStr price),
            (''Bed'', PyStr (if bed = [] then NA else bed)),
            (''Bath'', PyStr (if bath = [] then NA else bath)),
            (''Sqft'', PyStr (if sqft = [] then NA else sqft)),
            (''Lot Size'', PyStr (if lot_size = [] then NA else lot_size)),
            (''Address'', PyStr (py_join (ascii '' '') (py_split address))),
            (''Link'', link)]]\<rparr>))"
proof (intro conjI impI allI)
  assume f: "meta_beds p = Raises Exception \<or> meta_baths p = Raises Exception \<or>
      meta_sqft p = Raises Exception \<or> meta_lot_size p = Raises Exception"
  have "extract_listing p = Raises Exception"
    using assms(3) f by (intro extract_listing_fails) auto
  then show sp: "scrape_prop p s = (Returns (), s)"
    by (simp add: scrape_prop_reached assms(1,2))
  then show "for_props (p # rest) s = for_props rest s" by simp
next
  fix bed bath sqft lot_size address
  assume r: "meta_beds p = Returns bed \<and> meta_baths p = Returns bath \<and> meta_sqft p = Returns sqft \<and>
        meta_lot_size p = Returns lot_size \<and> card_address p = Returns address"
  have "extract_listing p = Returns
     [(''Property Status'', PyStr status), (''Price'', PyStr price),
      (''Bed'', PyStr (py_or bed NA)), (''Bath'', PyStr (py_or bath NA)),
      (''Sqft'', PyStr (py_or sqft NA)), (''Lot Size'', PyStr (py_or lot_size NA)),
      (''Address'', PyStr (py_join (ascii '' '') (py_split address))), (''Link'', link)]"
    using assms(4-6) r by (intro extract_listing_returns) simp_all
  then show "for_props (p # rest) s = for_props rest (s\<lparr>data := data s @
          [[(''Property Status'', PyStr status), (''Price'', PyStr price),
            (''Bed'', PyStr (if bed = [] then NA else bed)),
            (''Bath'', PyStr (if bath = [] then NA else bath)),
            (''Sqft'', PyStr (if sqft = [] then NA else sqft)),
            (''Lot Size'', PyStr (if lot_size = [] then NA else lot_size)),
            (''Address'', PyStr (py_join (ascii '' '') (py_split address))),
            (''Link'', link)]]\<rparr>)"
    by (simp add: scrape_prop_reached assms(1,2) py_or_def)
qed

theorem meta_lookup_failure_skips_listing_witness:
  "for_props [land_listing, full_listing] (RealtorScraper 75034) =
     for_props [full_listing] (RealtorScraper 75034) \<and>
   for_props [full_listing] (RealtorScraper 75034) =
     (Returns (), (RealtorScraper 75034)\<lparr>data :=
        [[(''Property Status'', PyStr (ascii ''House for sale'')),
          (''Price'', PyStr (ascii ''$450,000'')),
          (''Bed'', PyStr (ascii ''3'')),
          (''Bath'', PyStr (ascii ''N/A'')),
          (''Sqft'', PyStr (ascii ''1,850'')),
          (''Lot Size'', PyStr (ascii ''N/A'')),
          (''Address'', PyStr (ascii ''12 Main St, Frisco, TX 75034'')),
          (''Link'', PyStr (ascii ''https://www.realtor.com/d/12-Main-St''))]]\<rparr>)"
proof -
  have sp: "py_join (ascii '' '') (py_split (ascii ''12 Main St,  Frisco, TX 75034'')) =
      ascii ''12 Main St, Frisco, TX 75034''"
    by (simp add: ascii_def py_split_def isspace_def)
  have skipped: "for_props [land_listing, full_listing] (RealtorScraper 75034) =
      for_props [full_listing] (RealtorScraper 75034)"
    using meta_lookup_failure_skips_listing [of land_listing
        "PyStr (ascii ''https://www.realtor.com/d/12-Main-St'')" "ascii ''House for sale''"
        "ascii ''$450,000''" "RealtorScraper 75034" "[full_listing]"]
    by (simp add: land_listing_def full_listing_def interrupted_def)
  have kept: "for_props [full_listing] (RealtorScraper 75034) =
      for_props [] ((RealtorScraper 75034)\<lparr>data := data (RealtorScraper 75034) @
          [[(''Property Status'', PyStr (ascii ''House for sale'')),
            (''Price'', PyStr (ascii ''$450,000'')),
            (''Bed'', PyStr (if ascii ''3'' = [] then NA else ascii ''3'')),
            (''Bath'', PyStr (if [] = ([] :: pystr) then NA else [])),
            (''Sqft'', PyStr (if ascii ''1,850'' = [] then NA else ascii ''1,850'')),
            (''Lot Size'', PyStr (if [] = ([] :: pystr) then NA else [])),
            (''Address'', PyStr (py_join (ascii '' '') (py_split (ascii ''12 Main St,  Frisco, TX 75034'')))),
            (''Link'', PyStr (ascii ''https://www.realtor.com/d/12-Main-St''))]]\<rparr>)"
    using meta_lookup_failure_skips_listing [of full_listing
        "PyStr (ascii ''https://www.realtor.com/d/12-Main-St'')" "ascii ''House for sale''"
        "ascii ''$450,000''" "RealtorScraper 75034" "[]"]
    by (simp add: full_listing_def interrupted_def)
  have ne: "ascii ''3'' \<noteq> []" "ascii ''1,850'' \<noteq> []" by (simp_all add: ascii_def)
  show ?thesis
    using skipped kept by (simp add: sp ne NA_def RealtorScraper_def)
qed

text \<open>
  Claim C10. When all the lookups of a reached listing succeed, the record that is
  appended maps Bed, Bath, Sqft and Lot Size to \<open>N/A\<close> exactly where the extracted text
  is empty and to the text otherwise, while status, price and link are stored as they
  were extracted, empty or not, and an empty address stays empty.
\<close>

theorem empty_text_placeholder:
  assumes "scroll_into_view p = Returns ()" and "pause p = Returns ()"
    and "card_link p = Returns link" and "card_status p = Returns status"
    and "card_price p = Returns price" and "meta_beds p = Returns bed"
    and "meta_baths p = Returns bath" and "meta_sqft p = Returns sqft"
    and "meta_lot_size p = Returns lot_size" and "card_address p = Returns address"
  shows "\<exists>r. for_props (p # rest) s = for_props rest (s\<lparr>data := data s @ [r]\<rparr>) \<and>
     map_of r ''Bed'' = Some (PyStr (if bed = [] then ascii ''N/A'' else bed)) \<and>
     map_of r ''Bath'' = Some (PyStr (if bath = [] then ascii ''N/A'' else bath)) \<and>
     map_of r ''Sqft'' = Some (PyStr (if sqft = [] then ascii ''N/A'' else sqft)) \<and>
     map_of r ''Lot Size'' = Some (PyStr (if lot_size = [] then ascii ''N/A'' else lot_size)) \<and>
     map_of r ''Property Status'' = Some (PyStr status) \<and>
     map_of r ''Price'' = Some (PyStr price) \<and>
     map_of r ''Link'' = Some link \<and>
     map_of r ''Address'' = Some (PyStr (py_join (ascii '' '') (py_split address))) \<and>
     py_join (ascii '' '') (py_split []) = []"
proof -
  have "extract_listing p = Returns
     [(''Property Status'', PyStr status), (''Price'', PyStr price),
      (''Bed'', PyStr (py_or bed NA)), (''Bath'', PyStr (py_or bath NA)),
      (''Sqft'', PyStr (py_or sqft NA)), (''Lot Size'', PyStr (py_or lot_size NA)),
      (''Address'', PyStr (py_join (ascii '' '') (py_split address))), (''Link'', link)]"
    using assms(3-10) by (rule extract_listing_returns)
  then have "for_props (p # rest) s = for_props rest (s\<lparr>data := data s @
     [[(''Property Status'', PyStr status), (''Price'', PyStr price),
      (''Bed'', PyStr (py_or bed NA)), (''Bath'', PyStr (py_or bath NA)),
      (''Sqft'', PyStr (py_or sqft NA)), (''Lot Size'', PyStr (py_or lot_size NA)),
      (''Address'', PyStr (py_join (ascii '' '') (py_split address))), (''Link'', link)]]\<rparr>)"
    by (simp add: scrape_prop_reached assms(1,2))
  moreover have "py_join (ascii '' '') (py_split []) = []"
    by (simp add: py_split_def)
  ultimately show ?thesis
    by (intro exI [of _ "[(''Property Status'', PyStr status), (''Price'', PyStr price),
      (''Bed'', PyStr (py_or bed NA)), (''Bath'', PyStr (py_or bath NA)),
      (''Sqft'', PyStr (py_or sqft NA)), (''Lot Size'', PyStr (py_or lot_size NA)),
      (''Address'', PyStr (py_join (ascii '' '') (py_split address))), (''Link'', link)]"])
      (simp add: py_or_def NA_def)
qed

theorem empty_text_placeholder_witness:
  "\<exists>r. for_props [blank_listing] (RealtorScraper 75034) =
       (Returns (), (RealtorScraper 75034)\<lparr>data := [r]\<rparr>) \<and>
     map_of r ''Bed'' = Some (PyStr (ascii ''4'')) \<and>
     map_of r ''Bath'' = Some (PyStr (ascii ''N/A'')) \<and>
     map_of r ''Sqft'' = Some (PyStr (ascii ''N/A'')) \<and>
     map_of r ''Lot Size'' = Some (PyStr (ascii ''0.25'')) \<and>
     map_of r ''Property Status'' = Some (PyStr []) \<and>
     map_of r ''Price'' = Some (PyStr []) \<and>
     map_of r ''Link'' = Some (PyStr []) \<and>
     map_of r ''Address'' = Some (PyStr [])"
proof -
  have ne: "ascii ''4'' \<noteq> []" "ascii ''0.25'' \<noteq> []" by (simp_all add: ascii_def)
  show ?thesis
    using empty_text_placeholder [of blank_listing "PyStr []" "[]" "[]" "ascii ''4''" "[]" "[]"
      "ascii ''0.25''" "[]" "[]" "RealtorScraper 75034"]
    by (simp add: blank_listing_def ne RealtorScraper_def py_split_def)
qed

lemma obind_ReturnsE:
  assumes "obind m f = Returns d"
  obtains x where "m = Returns x" and "f x = Returns d"
  using assms by (cases m) simp_all

lemma extract_listing_keys:
  assumes "extract_listing p = Returns d"
  shows "map fst d = field_names"
  using assms unfolding extract_listing_def Let_def
  by (elim obind_ReturnsE) auto

lemma scrape_prop_appends:
  "\<exists>new. data (snd (scrape_prop p s)) = data s @ new \<and> (\<forall>r\<in>set new. map fst r = field_names)"
proof (cases "extract_listing p")
  case (Returns d)
  then have "map fst d = field_names" by (rule extract_listing_keys)
  then show ?thesis using Returns
    by (simp add: scrape_prop_def bind_def call_def try_except_def append_data_def log_only_def
        split: outcome.splits exn.splits)
next
  case (Raises e)
  then show ?thesis
    by (simp add: scrape_prop_def bind_def call_def try_except_def append_data_def log_only_def
        split: outcome.splits exn.splits)
qed

lemma appends_trans:
  assumes "\<exists>new. data b = data a @ new \<and> (\<forall>r\<in>set new. P r)"
    and "\<exists>new. data c = data b @ new \<and> (\<forall>r\<in>set new. P r)"
  shows "\<exists>new. data c = data (a :: scraper) @ new \<and> (\<forall>r\<in>set new. P r)"
proof -
  from assms(1) obtain n1 where n1: "data b = data a @ n1" "\<forall>r\<in>set n1. P r" by blast
  from assms(2) obtain n2 where n2: "data c = data b @ n2" "\<forall>r\<in>set n2. P r" by blast
  have "data c = data a @ (n1 @ n2)" using n1 n2 by simp
  moreover have "\<forall>r\<in>set (n1 @ n2). P r" using n1 n2 by auto
  ultimately show ?thesis by blast
qed

lemma for_props_appends:
  "\<exists>new. data (snd (for_props ps s)) = data s @ new \<and> (\<forall>r\<in>set new. map fst r = field_names)"
proof (rule for_props_rel
      [where R = "\<lambda>a b. \<exists>new. data b = data a @ new \<and> (\<forall>r\<in>set new. map fst r = field_names)"])
  fix p s
  show "\<exists>new. data (snd (scrape_prop p s)) = data s @ new \<and> (\<forall>r\<in>set new. map fst r = field_names)"
    by (rule scrape_prop_appends)
next
  fix s :: scraper
  show "\<exists>new. data s = data s @ new \<and> (\<forall>r\<in>set new. map fst r = field_names)"
    by simp
next
  fix a b c :: scraper
  assume "\<exists>new. data b = data a @ new \<and> (\<forall>r\<in>set new. map fst r = field_names)"
    and "\<exists>new. data c = data b @ new \<and> (\<forall>r\<in>set new. map fst r = field_names)"
  then show "\<exists>new. data c = data a @ new \<and> (\<forall>r\<in>set new. map fst r = field_names)"
    by (rule appends_trans)
qed

lemma scrape_data_appends:
  "\<exists>new. data (snd (scrape_data b s)) = data s @ new \<and> (\<forall>r\<in>set new. map fst r = field_names)"
  unfolding scrape_data_def
proof (rule try_except_rel
      [where R = "\<lambda>a b. \<exists>new. data b = data a @ new \<and> (\<forall>r\<in>set new. map fst r = field_names)"])
  fix s
  show "\<exists>new. data (snd (bind (call (elements_at b (location s))) for_props s)) = data s @ new \<and>
      (\<forall>r\<in>set new. map fst r = field_names)"
  proof (rule bind_rel
      [where R = "\<lambda>a b. \<exists>new. data b = data a @ new \<and> (\<forall>r\<in>set new. map fst r = field_names)"])
    fix s' :: scraper
    show "\<exists>new. data (snd (call (elements_at b (location s)) s')) = data s' @ new \<and>
        (\<forall>r\<in>set new. map fst r = field_names)"
      by (simp add: call_def)
  next
    fix x s'
    show "\<exists>new. data (snd (for_props x s')) = data s' @ new \<and>
        (\<forall>r\<in>set new. map fst r = field_names)"
      by (rule for_props_appends)
  next
    fix a b c :: scraper
    assume "\<exists>new. data b = data a @ new \<and> (\<forall>r\<in>set new. map fst r = field_names)"
      and "\<exists>new. data c = data b @ new \<and> (\<forall>r\<in>set new. map fst r = field_names)"
    then show "\<exists>new. data c = data a @ new \<and> (\<forall>r\<in>set new. map fst r = field_names)"
      by (rule appends_trans)
  qed
next
  fix s
  show "\<exists>new. data (snd (log_only s)) = data s @ new \<and> (\<forall>r\<in>set new. map fst r = field_names)"
    by (simp add: log_only_def)
next
  fix a b c :: scraper
  assume "\<exists>new. data b = data a @ new \<and> (\<forall>r\<in>set new. map fst r = field_names)"
    and "\<exists>new. data c = data b @ new \<and> (\<forall>r\<in>set new. map fst r = field_names)"
  then show "\<exists>new. data c = data a @ new \<and> (\<forall>r\<in>set new. map fst r = field_names)"
    by (rule appends_trans)
qed

lemma try_except_log_only: "fst (try_except m log_only s) \<noteq> Raises Exception"
  by (simp add: try_except_def log_only_def split: prod.splits outcome.splits exn.splits)

lemma scrape_prop_interrupt:
  assumes "fst (scrape_prop p s) = Raises KeyboardInterrupt"
  shows "interrupted p"
proof (rule ccontr)
  assume ni: "\<not> interrupted p"
  then have n: "scroll_into_view p \<noteq> Raises KeyboardInterrupt" "pause p \<noteq> Raises KeyboardInterrupt"
    by (simp_all add: interrupted_def)
  have ex: "extract_listing p \<noteq> Raises KeyboardInterrupt"
  proof (cases "\<exists>d. extract_listing p = Returns d")
    case True
    then show ?thesis by auto
  next
    case False
    have "card_link p = Raises Exception \<or> card_status p = Raises Exception \<or>
      card_price p = Raises Exception \<or> meta_beds p = Raises Exception \<or>
      meta_baths p = Raises Exception \<or> meta_sqft p = Raises Exception \<or>
      meta_lot_size p = Raises Exception \<or> card_address p = Raises Exception"
    proof (rule ccontr)
      assume a: "\<not> ?thesis"
      have r: "\<And>r :: 'a outcome. r \<noteq> Raises Exception \<Longrightarrow> r \<noteq> Raises KeyboardInterrupt \<Longrightarrow> \<exists>x. r = Returns x"
        by (metis exn.exhaust outcome.exhaust)
      from a ni have "\<exists>x. card_link p = Returns x" "\<exists>x. card_status p = Returns x"
        "\<exists>x. card_price p = Returns x" "\<exists>x. meta_beds p = Returns x"
        "\<exists>x. meta_baths p = Returns x" "\<exists>x. meta_sqft p = Returns x"
        "\<exists>x. meta_lot_size p = Returns x" "\<exists>x. card_address p = Returns x"
        by (simp_all add: interrupted_def r)
      then have "\<exists>d. extract_listing p = Returns d"
        by (auto simp: extract_listing_def)
      with False show False by simp
    qed
    with ni have "extract_listing p = Raises Exception" by (rule extract_listing_fails)
    then show ?thesis by simp
  qed
  show False using assms n ex
    by (auto simp: scrape_prop_def bind_def call_def try_except_def append_data_def log_only_def
        split: outcome.splits exn.splits)
qed

lemma for_props_interrupt:
  assumes "fst (for_props ps s) = Raises KeyboardInterrupt"
  shows "list_ex interrupted ps"
  using assms
proof (induction ps arbitrary: s)
  case Nil
  then show ?case by simp
next
  case (Cons p ps)
  show ?case
  proof (cases "scrape_prop p s")
    case (Pair r s1)
    show ?thesis
    proof (cases r)
      case (Returns u)
      with Pair Cons.prems have "fst (for_props ps s1) = Raises KeyboardInterrupt" by simp
      then have "list_ex interrupted ps" by (rule Cons.IH)
      then show ?thesis by simp
    next
      case (Raises e)
      with Pair Cons.prems have "fst (scrape_prop p s) = Raises KeyboardInterrupt" by simp
      then have "interrupted p" by (rule scrape_prop_interrupt)
      then show ?thesis by simp
    qed
  qed
qed

lemma scrape_data_returns:
  assumes ni: "\<not> page_interrupted (elements_at b (location s))"
  shows "fst (scrape_data b s) = Returns ()"
proof -
  have ne: "fst (scrape_data b s) \<noteq> Raises Exception"
    unfolding scrape_data_def by (rule try_except_log_only)
  have "fst (scrape_data b s) \<noteq> Raises KeyboardInterrupt"
  proof
    assume ki: "fst (scrape_data b s) = Raises KeyboardInterrupt"
    show False
    proof (cases "elements_at b (location s)")
      case (Returns props)
      with ki have "fst (for_props props s) = Raises KeyboardInterrupt"
        by (auto simp: scrape_data_def try_except_def bind_def call_def log_only_def
            split: prod.splits outcome.splits exn.splits)
      then have "list_ex interrupted props" by (rule for_props_interrupt)
      with ni Returns show False by (simp add: page_interrupted_def)
    next
      case (Raises e)
      with ki ni show False
        by (cases e) (auto simp: scrape_data_def try_except_def bind_def call_def log_only_def
            page_interrupted_def)
    qed
  qed
  with ne show ?thesis
    by (metis exn.exhaust outcome.exhaust old.unit.exhaust)
qed

text \<open>
  Claim C7. \<^verbatim>\<open>scrape_data\<close> never lets an \<open>Exception\<close> out; for every page state during
  which no interrupt arrives it returns normally; and on a page with no listing element,
  or on which \<^verbatim>\<open>find_elements\<close> itself raises, it returns with the state unchanged, so
  with no record appended.
\<close>

theorem scrape_data_never_raises:
  "fst (scrape_data b s) \<noteq> Raises Exception \<and>
   (\<not> page_interrupted (elements_at b (location s)) \<longrightarrow> fst (scrape_data b s) = Returns ()) \<and>
   (elements_at b (location s) = Returns [] \<longrightarrow> scrape_data b s = (Returns (), s)) \<and>
   (elements_at b (location s) = Raises Exception \<longrightarrow> scrape_data b s = (Returns (), s))"
proof (intro conjI impI)
  show "fst (scrape_data b s) \<noteq> Raises Exception"
    unfolding scrape_data_def by (rule try_except_log_only)
  show "scrape_data b s = (Returns (), s)" if "elements_at b (location s) = Returns []"
    using that by (simp add: scrape_data_def try_except_def bind_def call_def)
  show "scrape_data b s = (Returns (), s)" if "elements_at b (location s) = Raises Exception"
    using that by (simp add: scrape_data_def try_except_def bind_def call_def log_only_def)
  show "fst (scrape_data b s) = Returns ()" if "\<not> page_interrupted (elements_at b (location s))"
    using that by (rule scrape_data_returns)
qed

subsection \<open>Navigation attempts\<close>

lemma attempt_load_loads:
  "fst (attempt_load b url k s) = Returns True \<longleftrightarrow> loads (attempt_of b url k)"
  by (auto simp: attempt_load_def try_except_def bind_def call_def get_url_def loads_def
      split: outcome.splits exn.splits)

lemma attempt_load_fails:
  "fst (attempt_load b url k s) = Returns False \<longleftrightarrow> fails (attempt_of b url k)"
  by (auto simp: attempt_load_def try_except_def bind_def call_def get_url_def fails_def
      split: outcome.splits exn.splits)

lemma attempt_load_not_exception: "fst (attempt_load b url k s) \<noteq> Raises Exception"
  by (auto simp: attempt_load_def try_except_def bind_def call_def get_url_def
      split: outcome.splits exn.splits)

lemma attempt_load_trace:
  "trace (snd (attempt_load b url k s)) = trace s \<or>
   trace (snd (attempt_load b url k s)) = trace s @ [Get url]"
  by (auto simp: attempt_load_def try_except_def bind_def call_def get_url_def
      split: outcome.splits exn.splits)

lemma attempt_load_loads_trace:
  assumes "loads (attempt_of b url k)"
  shows "attempt_load b url k s =
    (Returns True, s\<lparr>location := Some url, trace := trace s @ [Get url]\<rparr>)"
  using assms
  by (simp add: attempt_load_def try_except_def bind_def call_def get_url_def loads_def)

lemma for_retry_not_exception: "fst (for_retry b url ks s) \<noteq> Raises Exception"
proof (induction ks arbitrary: s)
  case Nil
  show ?case by simp
next
  case (Cons k ks)
  show ?case
  proof (cases "attempt_load b url k s")
    case (Pair r s1)
    have "r \<noteq> Raises Exception" using attempt_load_not_exception [of b url k s] Pair by simp
    with Pair Cons.IH [of s1] show ?thesis
      by (auto split: outcome.splits bool.splits)
  qed
qed

lemma for_retry_trace:
  "\<exists>m \<le> length ks. trace (snd (for_retry b url ks s)) = trace s @ replicate m (Get url)"
proof (induction ks arbitrary: s)
  case Nil
  show ?case by simp
next
  case (Cons k ks)
  obtain r s1 where a: "attempt_load b url k s = (r, s1)" by (cases "attempt_load b url k s")
  have "trace s1 = trace s \<or> trace s1 = trace s @ [Get url]"
    using attempt_load_trace [of b url k s] a by simp
  then obtain m1 where m1: "m1 \<le> 1" "trace s1 = trace s @ replicate m1 (Get url)"
  proof
    assume "trace s1 = trace s"
    then have "trace s1 = trace s @ replicate 0 (Get url)" by simp
    then show ?thesis using that [of 0] by simp
  next
    assume "trace s1 = trace s @ [Get url]"
    then have "trace s1 = trace s @ replicate 1 (Get url)" by simp
    then show ?thesis using that [of 1] by simp
  qed
  from Cons.IH [of s1] obtain m2 where m2: "m2 \<le> length ks"
    "trace (snd (for_retry b url ks s1)) = trace s1 @ replicate m2 (Get url)" by blast
  have stop: "trace s1 = trace s @ replicate m1 (Get url) \<and> m1 \<le> length (k # ks)"
    using m1 by simp
  have go: "trace (snd (for_retry b url ks s1)) = trace s @ replicate (m1 + m2) (Get url) \<and>
      m1 + m2 \<le> length (k # ks)"
    using m1 m2 by (simp add: replicate_add)
  show ?case
  proof (cases "r = Returns False")
    case True
    with a have "snd (for_retry b url (k # ks) s) = snd (for_retry b url ks s1)" by simp
    with go show ?thesis by metis
  next
    case False
    with a have "snd (for_retry b url (k # ks) s) = s1"
      by (auto split: outcome.splits bool.splits)
    with stop show ?thesis by metis
  qed
qed

text \<open>A prefix of failing attempts is run through.\<close>

lemma for_retry_skip:
  assumes "\<forall>j\<in>set pre. fails (attempt_of b url j)"
  shows "\<exists>s1 m. for_retry b url (pre @ rest) s = for_retry b url rest s1 \<and> m \<le> length pre \<and>
     trace s1 = trace s @ replicate m (Get url)"
  using assms
proof (induction pre arbitrary: s)
  case Nil
  have "for_retry b url ([] @ rest) s = for_retry b url rest s \<and> (0::nat) \<le> length ([] :: int list) \<and>
     trace s = trace s @ replicate 0 (Get url)" by simp
  then show ?case by blast
next
  case (Cons k pre)
  obtain r s0 where a: "attempt_load b url k s = (r, s0)" by (cases "attempt_load b url k s")
  have "fails (attempt_of b url k)" using Cons.prems by simp
  then have r: "r = Returns False" using attempt_load_fails [of b url k s] a by simp
  have "trace s0 = trace s \<or> trace s0 = trace s @ [Get url]"
    using attempt_load_trace [of b url k s] a by simp
  then obtain m0 where m0: "m0 \<le> 1" "trace s0 = trace s @ replicate m0 (Get url)"
  proof
    assume "trace s0 = trace s"
    then have "trace s0 = trace s @ replicate 0 (Get url)" by simp
    then show ?thesis using that [of 0] by simp
  next
    assume "trace s0 = trace s @ [Get url]"
    then have "trace s0 = trace s @ replicate 1 (Get url)" by simp
    then show ?thesis using that [of 1] by simp
  qed
  have "\<forall>j\<in>set pre. fails (attempt_of b url j)" using Cons.prems by simp
  from Cons.IH [OF this, of s0] obtain s1 m where
    ih: "for_retry b url (pre @ rest) s0 = for_retry b url rest s1" "m \<le> length pre"
      "trace s1 = trace s0 @ replicate m (Get url)" by blast
  have "for_retry b url ((k # pre) @ rest) s = for_retry b url rest s1"
    using a r ih(1) by simp
  moreover have "m0 + m \<le> length (k # pre)" using m0(1) ih(2) by simp
  moreover have "trace s1 = trace s @ replicate (m0 + m) (Get url)"
    using m0(2) ih(3) by (simp add: replicate_add)
  ultimately show ?case by blast
qed

lemma for_retry_all_fail:
  "fst (for_retry b url ks s) = Returns False \<longleftrightarrow> (\<forall>k\<in>set ks. fails (attempt_of b url k))"
proof (induction ks arbitrary: s)
  case Nil
  show ?case by simp
next
  case (Cons k ks)
  obtain r s1 where a: "attempt_load b url k s = (r, s1)" by (cases "attempt_load b url k s")
  have f: "r = Returns False \<longleftrightarrow> fails (attempt_of b url k)"
    using attempt_load_fails [of b url k s] a by simp
  show ?case
  proof (cases "r = Returns False")
    case True
    with a have "fst (for_retry b url (k # ks) s) = fst (for_retry b url ks s1)" by simp
    with True f Cons.IH [of s1] show ?thesis by simp
  next
    case False
    with a have "fst (for_retry b url (k # ks) s) = r"
      by (auto split: outcome.splits bool.splits)
    with False f show ?thesis by simp
  qed
qed

lemma load_page_loads_at:
  assumes h: "1 \<le> k \<and> k \<le> n \<and> loads (attempt_of b (get_page_url s) k) \<and>
        (\<forall>j. 1 \<le> j \<and> j < k \<longrightarrow> fails (attempt_of b (get_page_url s) j))"
  shows "\<exists>m s1. m < nat k \<and> trace s1 = trace s @ replicate m (Get (get_page_url s)) \<and>
     load_page b n s = (Returns True,
       s1\<lparr>location := Some (get_page_url s), trace := trace s1 @ [Get (get_page_url s)]\<rparr>)"
proof -
  let ?url = "get_page_url s"
  have split: "[1..n] = [1..k - 1] @ k # [k + 1..n]" using h by (intro upto_split3) simp_all
  have "\<forall>j\<in>set [1..k - 1]. fails (attempt_of b ?url j)" using h by simp
  from for_retry_skip [OF this, of "k # [k + 1..n]" s] obtain s1 m where
    sk: "for_retry b ?url ([1..k - 1] @ k # [k + 1..n]) s = for_retry b ?url (k # [k + 1..n]) s1"
      "m \<le> length [1..k - 1]" "trace s1 = trace s @ replicate m (Get ?url)" by blast
  have "attempt_load b ?url k s1 =
      (Returns True, s1\<lparr>location := Some ?url, trace := trace s1 @ [Get ?url]\<rparr>)"
    using h by (intro attempt_load_loads_trace) simp
  then have res: "load_page b n s =
      (Returns True, s1\<lparr>location := Some ?url, trace := trace s1 @ [Get ?url]\<rparr>)"
    using sk(1) split by (simp add: load_page_def)
  have "m < nat k"
  proof -
    have "m \<le> nat (k - 1)" using sk(2) by simp
    moreover have "1 \<le> k" using h by simp
    ultimately show ?thesis by linarith
  qed
  with sk(3) res show ?thesis by blast
qed

subsection \<open>The loop body and the loop\<close>

lemma attempt_load_fst_state: "fst (attempt_load b url k s) = fst (attempt_load b url k t)"
  by (auto simp: attempt_load_def try_except_def bind_def call_def get_url_def
      split: outcome.splits exn.splits)

lemma for_retry_fst_state: "fst (for_retry b url ks s) = fst (for_retry b url ks t)"
proof (induction ks arbitrary: s t)
  case Nil
  show ?case by simp
next
  case (Cons k ks)
  obtain r s1 where a: "attempt_load b url k s = (r, s1)" by (cases "attempt_load b url k s")
  obtain r' t1 where a': "attempt_load b url k t = (r', t1)" by (cases "attempt_load b url k t")
  have "r = r'" using attempt_load_fst_state [of b url k s t] a a' by simp
  with a a' Cons.IH [of s1 t1] show ?case
    by (auto split: outcome.splits bool.splits)
qed

lemma load_page_fst_state:
  assumes "zipcode s = zipcode t" and "page s = page t"
  shows "fst (load_page b n s) = fst (load_page b n t)"
proof -
  have "get_page_url s = get_page_url t" using assms by (simp add: get_page_url_def)
  then show ?thesis unfolding load_page_def using for_retry_fst_state by metis
qed

lemma scrape_data_not_exception: "fst (scrape_data b s) \<noteq> Raises Exception"
  unfolding scrape_data_def by (rule try_except_log_only)

lemma loop_body_True:
  assumes "loop_body b s = (Returns True, s1)"
  shows "fst (load_page b 3 s) = Returns True \<and> page s1 = page s + 1 \<and> zipcode s1 = zipcode s"
proof -
  obtain r s0 where l: "load_page b 3 s = (r, s0)" by (cases "load_page b 3 s")
  have z0: "zipcode s0 = zipcode s" using load_page_keeps [of zipcode b 3 s] l by simp
  obtain r2 s2 where d: "scrape_data b s0 = (r2, s2)" by (cases "scrape_data b s0")
  have z2: "zipcode s2 = zipcode s0" using scrape_data_keeps [of zipcode b s0] d by simp
  have "fst (load_page b 3 s) = Returns True \<and> zipcode s1 = zipcode s"
    using assms l d z0 z2
    by (auto simp: loop_body_def bind_def call_def next_page_def split: outcome.splits if_splits)
  with loop_body_continues [OF assms] show ?thesis by simp
qed

lemma loop_body_False:
  assumes "loop_body b s = (Returns False, s1)"
  shows "load_page b 3 s = (Returns False, s1)"
proof -
  obtain r s0 where l: "load_page b 3 s = (r, s0)" by (cases "load_page b 3 s")
  obtain r2 s2 where d: "scrape_data b s0 = (r2, s2)" by (cases "scrape_data b s0")
  show ?thesis using assms l d
    by (auto simp: loop_body_def bind_def call_def next_page_def split: outcome.splits if_splits)
qed

lemma loop_body_Raises:
  assumes "loop_body b s = (Raises e, s1)"
  shows "e = KeyboardInterrupt \<and> page s1 = page s \<and> zipcode s1 = zipcode s"
proof -
  obtain r s0 where l: "load_page b 3 s = (r, s0)" by (cases "load_page b 3 s")
  have nl: "r \<noteq> Raises Exception"
    using for_retry_not_exception [of b "get_page_url s" "[1..3]" s] l by (simp add: load_page_def)
  have k0: "page s0 = page s" "zipcode s0 = zipcode s"
    using load_page_keeps [of page b 3 s] load_page_keeps [of zipcode b 3 s] l by simp_all
  obtain r2 s2 where d: "scrape_data b s0 = (r2, s2)" by (cases "scrape_data b s0")
  have nd: "r2 \<noteq> Raises Exception" using scrape_data_not_exception [of b s0] d by simp
  have k2: "page s2 = page s0" "zipcode s2 = zipcode s0"
    using scrape_data_keeps [of page b s0] scrape_data_keeps [of zipcode b s0] d by simp_all
  show ?thesis using assms l d nl nd k0 k2
    by (cases e) (auto simp: loop_body_def bind_def call_def next_page_def split: outcome.splits if_splits)
qed

lemma loop_body_rel:
  assumes l: "\<And>s. R s (snd (load_page b 3 s))" and d: "\<And>s. R s (snd (scrape_data b s))"
    and n: "\<And>s. R s (snd (next_page s))"
    and refl: "\<And>s. R s s" and trans: "\<And>a b c. R a b \<Longrightarrow> R b c \<Longrightarrow> R a c"
  shows "R s (snd (loop_body b s))"
  unfolding loop_body_def
proof (rule bind_rel [where R = R])
  fix s show "R s (snd (load_page b 3 s))" by (rule l)
next
  fix loaded s
  show "R s (snd ((if \<not> loaded then call (Returns False) else bind (scrape_data b) (\<lambda>_. next_page)) s))"
  proof (cases loaded)
    case False
    then show ?thesis by (simp add: call_def refl)
  next
    case True
    have "R s (snd (bind (scrape_data b) (\<lambda>_. next_page) s))"
    proof (rule bind_rel [where R = R])
      fix s show "R s (snd (scrape_data b s))" by (rule d)
    next
      fix x s show "R s (snd (next_page s))" by (rule n)
    next
      fix a b c assume "R a b" "R b c" then show "R a c" by (rule trans)
    qed
    with True show ?thesis by simp
  qed
next
  fix a b c assume "R a b" "R b c" then show "R a c" by (rule trans)
qed

lemma while_page_rel:
  assumes body: "\<And>s. R s (snd (loop_body b s))"
    and refl: "\<And>s. R s s" and trans: "\<And>a b c. R a b \<Longrightarrow> R b c \<Longrightarrow> R a c"
  shows "R s (snd (while_page b s))"
  using body
proof (induction b s rule: while_page.induct)
  case (1 b s)
  show ?case
  proof (cases "page s \<le> 5")
    case False
    then show ?thesis by (subst while_page.simps) (simp add: refl)
  next
    case True
    obtain r s1 where lb: "loop_body b s = (r, s1)" by (cases "loop_body b s")
    have step: "R s s1" using "1.prems" [of s] lb by simp
    show ?thesis
    proof (cases "r = Returns True")
      case t: True
      have "R s1 (snd (while_page b s1))" using "1.IH" [of r s1 True] True lb t "1.prems" by simp
      with step have "R s (snd (while_page b s1))" by (rule trans)
      then show ?thesis using True lb t by (subst while_page.simps) simp
    next
      case False
      then have "snd (while_page b s) = s1" using True lb
        by (subst while_page.simps) (auto split: outcome.splits bool.splits)
      with step show ?thesis by simp
    qed
  qed
qed

lemma while_page_stop: "\<not> page s \<le> 5 \<Longrightarrow> while_page b s = (Returns (), s)"
  by (subst while_page.simps) simp

lemma while_page_continue:
  "page s \<le> 5 \<Longrightarrow> loop_body b s = (Returns True, s1) \<Longrightarrow> while_page b s = while_page b s1"
  by (subst while_page.simps) simp

lemma while_page_break:
  "page s \<le> 5 \<Longrightarrow> loop_body b s = (Returns False, s1) \<Longrightarrow> while_page b s = (Returns (), s1)"
  by (subst while_page.simps) simp

lemma while_page_raise:
  "page s \<le> 5 \<Longrightarrow> loop_body b s = (Raises e, s1) \<Longrightarrow> while_page b s = (Raises e, s1)"
  by (subst while_page.simps) simp

lemma while_page_cases [case_names stop continue break raise]:
  assumes stop: "\<And>s. \<not> page s \<le> 5 \<Longrightarrow> P s"
    and continue: "\<And>s s1. page s \<le> 5 \<Longrightarrow> loop_body b s = (Returns True, s1) \<Longrightarrow> P s1 \<Longrightarrow> P s"
    and break: "\<And>s s1. page s \<le> 5 \<Longrightarrow> loop_body b s = (Returns False, s1) \<Longrightarrow> P s"
    and raise: "\<And>s e s1. page s \<le> 5 \<Longrightarrow> loop_body b s = (Raises e, s1) \<Longrightarrow> P s"
  shows "P s"
  using assms
proof (induction b s rule: while_page.induct)
  case (1 b s)
  show ?case
  proof (cases "page s \<le> 5")
    case False
    then show ?thesis by (rule "1.prems"(1))
  next
    case True
    obtain r s1 where lb: "loop_body b s = (r, s1)" by (cases "loop_body b s")
    show ?thesis
    proof (cases r)
      case (Raises e)
      with True lb show ?thesis using "1.prems"(4) [of s e s1] by simp
    next
      case (Returns go)
      show ?thesis
      proof (cases go)
        case False
        with True lb Returns show ?thesis using "1.prems"(3) [of s s1] by simp
      next
        case go: True
        have "P s1"
          by (rule "1.IH" [OF True lb [symmetric] _ _ "1.prems"]) (simp_all add: Returns go)
        with True lb Returns go show ?thesis using "1.prems"(2) [of s s1] by simp
      qed
    qed
  qed
qed

lemma while_page_counter:
  "page s \<le> page (snd (while_page b s)) \<and> (page s \<le> 6 \<longrightarrow> page (snd (while_page b s)) \<le> 6) \<and>
   zipcode (snd (while_page b s)) = zipcode s"
proof (induction s rule: while_page_cases [where b = b])
  case (stop s)
  then show ?case by (simp add: while_page_stop)
next
  case (continue s s1)
  with loop_body_True [OF continue(2)] show ?case by (simp add: while_page_continue)
next
  case (break s s1)
  have "page s1 = page s" "zipcode s1 = zipcode s"
    using load_page_keeps [of page b 3 s] load_page_keeps [of zipcode b 3 s]
      loop_body_False [OF break(2)] by simp_all
  with break show ?case by (simp add: while_page_break)
next
  case (raise s e s1)
  with loop_body_Raises [OF raise(2)] show ?case by (simp add: while_page_raise)
qed

lemma while_page_loaded:
  "\<forall>p. page s \<le> p \<and> p < page (snd (while_page b s)) \<longrightarrow>
     fst (load_page b 3 (s\<lparr>page := p\<rparr>)) = Returns True"
proof (induction s rule: while_page_cases [where b = b])
  case (stop s)
  then show ?case by (auto simp: while_page_stop)
next
  case (continue s s1)
  note t = loop_body_True [OF continue(2)]
  show ?case
  proof (intro allI impI)
    fix p assume p: "page s \<le> p \<and> p < page (snd (while_page b s))"
    then have p': "page s \<le> p \<and> p < page (snd (while_page b s1))"
      using continue(1,2) by (simp add: while_page_continue)
    show "fst (load_page b 3 (s\<lparr>page := p\<rparr>)) = Returns True"
    proof (cases "p = page s")
      case True
      then show ?thesis using t by simp
    next
      case False
      with p' t have "page s1 \<le> p \<and> p < page (snd (while_page b s1))" by simp
      with continue(3) have "fst (load_page b 3 (s1\<lparr>page := p\<rparr>)) = Returns True" by blast
      moreover have "fst (load_page b 3 (s1\<lparr>page := p\<rparr>)) = fst (load_page b 3 (s\<lparr>page := p\<rparr>))"
        using t by (intro load_page_fst_state) simp_all
      ultimately show ?thesis by simp
    qed
  qed
next
  case (break s s1)
  have "page s1 = page s"
    using load_page_keeps [of page b 3 s] loop_body_False [OF break(2)] by simp
  with break show ?case by (auto simp: while_page_break)
next
  case (raise s e s1)
  with loop_body_Raises [OF raise(2)] show ?case by (auto simp: while_page_raise)
qed

lemma while_page_exit:
  "fst (while_page b s) \<noteq> Raises Exception \<and>
   (fst (while_page b s) = Returns () \<and> page (snd (while_page b s)) \<le> 5 \<longrightarrow>
      fst (load_page b 3 (snd (while_page b s))) = Returns False) \<and>
   (5 < page (snd (while_page b s)) \<longrightarrow> fst (while_page b s) = Returns ())"
proof (induction s rule: while_page_cases [where b = b])
  case (stop s)
  then show ?case by (simp add: while_page_stop)
next
  case (continue s s1)
  then show ?case by (simp add: while_page_continue)
next
  case (break s s1)
  note f = loop_body_False [OF break(2)]
  have "page s1 = page s" "zipcode s1 = zipcode s"
    using load_page_keeps [of page b 3 s] load_page_keeps [of zipcode b 3 s] f by simp_all
  then have "fst (load_page b 3 s1) = fst (load_page b 3 s)"
    by (intro load_page_fst_state) simp_all
  with f break show ?case by (simp add: while_page_break)
next
  case (raise s e s1)
  with loop_body_Raises [OF raise(2)] show ?case by (simp add: while_page_raise)
qed

lemma bounded_loop_enough:
  "nat (6 - page s) \<le> n \<Longrightarrow> bounded_loop n b s = Some (while_page b s)"
proof (induction s arbitrary: n rule: while_page_cases [where b = b])
  case (stop s)
  then show ?case by (cases n) (simp_all add: while_page_stop)
next
  case (continue s s1)
  note t = loop_body_True [OF continue(2)]
  from continue(1,4) obtain m where n: "n = Suc m" by (cases n) auto
  with continue(1,4) t have "nat (6 - page s1) \<le> m" by simp
  then have "bounded_loop m b s1 = Some (while_page b s1)" by (rule continue(3))
  with continue(1,2) n show ?case by (simp add: while_page_continue)
next
  case (break s s1)
  from break(1,3) obtain m where n: "n = Suc m" by (cases n) auto
  with break show ?case by (simp add: while_page_break)
next
  case (raise s e s1)
  from raise(1,3) obtain m where n: "n = Suc m" by (cases n) auto
  with raise show ?case by (simp add: while_page_raise)
qed

text \<open>
  Claim C4. Started at page 1, the loop of \<^verbatim>\<open>run\<close> ends within a budget of five
  iterations, with the page counter between 1 and 6. Every page below the final counter
  was loaded with success, one increment each. The loop ends at a counter of at most 5
  only because loading that page returned False (or an interrupt was raised), and at 6,
  the bound, it ends normally.
\<close>

theorem run_loop_bounded:
  assumes "page s = 1"
  shows "bounded_loop 5 b s = Some (while_page b s) \<and>
     1 \<le> page (snd (while_page b s)) \<and> page (snd (while_page b s)) \<le> 6 \<and>
     (\<forall>p. 1 \<le> p \<and> p < page (snd (while_page b s)) \<longrightarrow>
        fst (load_page b 3 (s\<lparr>page := p\<rparr>)) = Returns True) \<and>
     (page (snd (while_page b s)) \<le> 5 \<longrightarrow>
        fst (while_page b s) = Raises KeyboardInterrupt \<or>
        fst (while_page b s) = Returns () \<and>
        fst (load_page b 3 (snd (while_page b s))) = Returns False) \<and>
     (page (snd (while_page b s)) = 6 \<longrightarrow> fst (while_page b s) = Returns ())"
proof -
  have a: "bounded_loop 5 b s = Some (while_page b s)"
    using assms by (intro bounded_loop_enough) simp
  have c: "1 \<le> page (snd (while_page b s)) \<and> page (snd (while_page b s)) \<le> 6"
    using while_page_counter [of s b] assms by simp
  have l: "\<forall>p. 1 \<le> p \<and> p < page (snd (while_page b s)) \<longrightarrow>
        fst (load_page b 3 (s\<lparr>page := p\<rparr>)) = Returns True"
    using while_page_loaded [of s b] assms by simp
  have e: "page (snd (while_page b s)) \<le> 5 \<longrightarrow>
        fst (while_page b s) = Raises KeyboardInterrupt \<or>
        fst (while_page b s) = Returns () \<and>
        fst (load_page b 3 (snd (while_page b s))) = Returns False"
  proof (cases "fst (while_page b s)")
    case (Returns u)
    then show ?thesis using while_page_exit [of b s] by simp
  next
    case (Raises x)
    then show ?thesis using while_page_exit [of b s] by (cases x) simp_all
  qed
  have "page (snd (while_page b s)) = 6 \<longrightarrow> fst (while_page b s) = Returns ()"
    using while_page_exit [of b s] by simp
  then show ?thesis using a c l e by (intro conjI) simp_all
qed

subsection \<open>The trace and the output of a run\<close>

lemma gets_trans:
  assumes "\<exists>gets. trace b = trace a @ gets \<and> set gets \<subseteq> range Get"
    and "\<exists>gets. trace c = trace b @ gets \<and> set gets \<subseteq> range Get"
  shows "\<exists>gets. trace c = trace (a :: scraper) @ gets \<and> set gets \<subseteq> range Get"
proof -
  from assms(1) obtain g1 where g1: "trace b = trace a @ g1" "set g1 \<subseteq> range Get" by blast
  from assms(2) obtain g2 where g2: "trace c = trace b @ g2" "set g2 \<subseteq> range Get" by blast
  have "trace c = trace a @ (g1 @ g2)" using g1 g2 by simp
  moreover have "set (g1 @ g2) \<subseteq> range Get" using g1 g2 by simp
  ultimately show ?thesis by blast
qed

lemma load_page_gets:
  "\<exists>gets. trace (snd (load_page b n s)) = trace s @ gets \<and> set gets \<subseteq> range Get"
proof -
  from for_retry_trace [of "[1..n]" b "get_page_url s" s] obtain m where
    "trace (snd (load_page b n s)) = trace s @ replicate m (Get (get_page_url s))"
    unfolding load_page_def by blast
  moreover have "set (replicate m (Get (get_page_url s))) \<subseteq> range Get" by auto
  ultimately show ?thesis by blast
qed

lemma loop_body_gets:
  "\<exists>gets. trace (snd (loop_body b s)) = trace s @ gets \<and> set gets \<subseteq> range Get"
proof (rule loop_body_rel
    [where R = "\<lambda>a b. \<exists>gets. trace b = trace a @ gets \<and> set gets \<subseteq> range Get"])
  fix s show "\<exists>gets. trace (snd (load_page b 3 s)) = trace s @ gets \<and> set gets \<subseteq> range Get"
    by (rule load_page_gets)
next
  fix s
  have "trace (snd (scrape_data b s)) = trace s" by (rule scrape_data_keeps) simp
  then show "\<exists>gets. trace (snd (scrape_data b s)) = trace s @ gets \<and> set gets \<subseteq> range Get"
    by simp
next
  fix s show "\<exists>gets. trace (snd (next_page s)) = trace s @ gets \<and> set gets \<subseteq> range Get"
    by (simp add: next_page_def)
next
  fix s :: scraper show "\<exists>gets. trace s = trace s @ gets \<and> set gets \<subseteq> range Get" by simp
next
  fix a b c :: scraper
  assume "\<exists>gets. trace b = trace a @ gets \<and> set gets \<subseteq> range Get"
    and "\<exists>gets. trace c = trace b @ gets \<and> set gets \<subseteq> range Get"
  then show "\<exists>gets. trace c = trace a @ gets \<and> set gets \<subseteq> range Get" by (rule gets_trans)
qed

lemma while_page_gets:
  "\<exists>gets. trace (snd (while_page b s)) = trace s @ gets \<and> set gets \<subseteq> range Get"
proof (rule while_page_rel
    [where R = "\<lambda>a b. \<exists>gets. trace b = trace a @ gets \<and> set gets \<subseteq> range Get"])
  fix s show "\<exists>gets. trace (snd (loop_body b s)) = trace s @ gets \<and> set gets \<subseteq> range Get"
    by (rule loop_body_gets)
next
  fix s :: scraper show "\<exists>gets. trace s = trace s @ gets \<and> set gets \<subseteq> range Get" by simp
next
  fix a b c :: scraper
  assume "\<exists>gets. trace b = trace a @ gets \<and> set gets \<subseteq> range Get"
    and "\<exists>gets. trace c = trace b @ gets \<and> set gets \<subseteq> range Get"
  then show "\<exists>gets. trace c = trace a @ gets \<and> set gets \<subseteq> range Get" by (rule gets_trans)
qed

lemma loop_body_appends:
  "\<exists>new. data (snd (loop_body b s)) = data s @ new \<and> (\<forall>r\<in>set new. map fst r = field_names)"
proof (rule loop_body_rel
    [where R = "\<lambda>a b. \<exists>new. data b = data a @ new \<and> (\<forall>r\<in>set new. map fst r = field_names)"])
  fix s
  have "data (snd (load_page b 3 s)) = data s" by (rule load_page_keeps) simp
  then show "\<exists>new. data (snd (load_page b 3 s)) = data s @ new \<and>
      (\<forall>r\<in>set new. map fst r = field_names)" by simp
next
  fix s show "\<exists>new. data (snd (scrape_data b s)) = data s @ new \<and>
      (\<forall>r\<in>set new. map fst r = field_names)" by (rule scrape_data_appends)
next
  fix s show "\<exists>new. data (snd (next_page s)) = data s @ new \<and>
      (\<forall>r\<in>set new. map fst r = field_names)" by (simp add: next_page_def)
next
  fix s :: scraper
  show "\<exists>new. data s = data s @ new \<and> (\<forall>r\<in>set new. map fst r = field_names)" by simp
next
  fix a b c :: scraper
  assume "\<exists>new. data b = data a @ new \<and> (\<forall>r\<in>set new. map fst r = field_names)"
    and "\<exists>new. data c = data b @ new \<and> (\<forall>r\<in>set new. map fst r = field_names)"
  then show "\<exists>new. data c = data a @ new \<and> (\<forall>r\<in>set new. map fst r = field_names)"
    by (rule appends_trans)
qed

lemma while_page_appends:
  "\<exists>new. data (snd (while_page b s)) = data s @ new \<and> (\<forall>r\<in>set new. map fst r = field_names)"
proof (rule while_page_rel
    [where R = "\<lambda>a b. \<exists>new. data b = data a @ new \<and> (\<forall>r\<in>set new. map fst r = field_names)"])
  fix s show "\<exists>new. data (snd (loop_body b s)) = data s @ new \<and>
      (\<forall>r\<in>set new. map fst r = field_names)" by (rule loop_body_appends)
next
  fix s :: scraper
  show "\<exists>new. data s = data s @ new \<and> (\<forall>r\<in>set new. map fst r = field_names)" by simp
next
  fix a b c :: scraper
  assume "\<exists>new. data b = data a @ new \<and> (\<forall>r\<in>set new. map fst r = field_names)"
    and "\<exists>new. data c = data b @ new \<and> (\<forall>r\<in>set new. map fst r = field_names)"
  then show "\<exists>new. data c = data a @ new \<and> (\<forall>r\<in>set new. map fst r = field_names)"
    by (rule appends_trans)
qed

text \<open>What run does once the loop has ended in \<open>(r1, s1)\<close>.\<close>

lemma run_after_loop:
  assumes "while_page b s = (r1, s1)"
  shows "run b s =
    (if r1 = Returns () \<and> quit_outcome b = Returns ()
     then (Returns (), s1\<lparr>trace := trace s1 @ Quit #
        (if data s1 \<noteq> [] then [ToCsv ''output.csv'' (DataFrame (data s1))] else [])\<rparr>)
     else (case quit_outcome b of Raises e \<Rightarrow> Raises e | Returns u \<Rightarrow> r1,
           s1\<lparr>trace := trace s1 @ [Quit]\<rparr>))"
  using assms
  by (cases r1; cases "quit_outcome b")
    (simp_all add: run_def bind_def try_finally_def driver_quit_def save_def to_csv_def)

lemma written_append: "written (xs @ ys) = written xs @ written ys"
  by (induction xs rule: written.induct) simp_all

lemma written_gets: "set gets \<subseteq> range Get \<Longrightarrow> written gets = []"
  by (induction gets rule: written.induct) auto

lemma first_seen_fresh: "distinct (seen @ ks) \<Longrightarrow> first_seen seen ks = seen @ ks"
  by (induction ks arbitrary: seen) auto

lemma first_seen_known: "set ks \<subseteq> set seen \<Longrightarrow> first_seen seen ks = seen"
  by (induction ks arbitrary: seen) auto

lemma first_seen_append: "first_seen seen (ks @ ls) = first_seen (first_seen seen ks) ls"
  by (induction ks arbitrary: seen) auto

lemma DataFrame_columns:
  assumes "records \<noteq> []" and "\<forall>r\<in>set records. map fst r = F" and "distinct F"
  shows "columns (DataFrame records) = F"
proof -
  from assms(1) obtain r rs where rs: "records = r # rs" by (cases records) auto
  have "set (concat (map (map fst) rs)) \<subseteq> set F" using assms(2) rs by auto
  then have "first_seen F (concat (map (map fst) rs)) = F" by (rule first_seen_known)
  moreover have "first_seen [] F = F" using assms(3) first_seen_fresh [of "[]" F] by simp
  moreover have "map fst r = F" using assms(2) rs by simp
  ultimately show ?thesis using rs by (simp add: DataFrame_def first_seen_append)
qed

lemma DataFrame_rows: "length (rows (DataFrame records)) = length records"
  by (simp add: DataFrame_def Let_def)

lemma run_data:
  "data (snd (run b s)) = data (snd (while_page b s))"
proof (cases "while_page b s")
  case (Pair r1 s1)
  show ?thesis using run_after_loop [OF Pair] Pair
    by (simp split: outcome.splits)
qed

lemma run_keys:
  "\<forall>r\<in>set (data (snd (run b (RealtorScraper z)))). map fst r = field_names"
proof -
  from while_page_appends [of b "RealtorScraper z"] obtain new where
    "data (snd (while_page b (RealtorScraper z))) = data (RealtorScraper z) @ new"
    "\<forall>r\<in>set new. map fst r = field_names" by blast
  then show ?thesis by (simp add: run_data RealtorScraper_def)
qed

lemma run_written:
  assumes "written (trace s) = []"
  shows "written (trace (snd (run b s))) =
    (if fst (run b s) = Returns () \<and> data (snd (run b s)) \<noteq> []
     then [(''output.csv'', DataFrame (data (snd (run b s))))] else [])"
proof (cases "while_page b s")
  case (Pair r1 s1)
  from while_page_gets [of b s] Pair obtain gets where
    g: "trace s1 = trace s @ gets" "set gets \<subseteq> range Get" by auto
  have w: "written (trace s1) = []"
    using g assms by (simp add: written_append written_gets)
  show ?thesis
  proof (cases "r1 = Returns () \<and> quit_outcome b = Returns ()")
    case True
    then show ?thesis using run_after_loop [OF Pair] w by (simp add: written_append)
  next
    case False
    then have "run b s = (case quit_outcome b of Raises e \<Rightarrow> Raises e | Returns u \<Rightarrow> r1,
           s1\<lparr>trace := trace s1 @ [Quit]\<rparr>)"
      by (simp only: run_after_loop [OF Pair] False if_False)
    moreover have "(case quit_outcome b of Raises e \<Rightarrow> Raises e | Returns u \<Rightarrow> r1) \<noteq> Returns ()"
      using False by (cases "quit_outcome b") auto
    ultimately show ?thesis using w by (simp add: written_append)
  qed
qed

text \<open>
  Claim C5. A run of a fresh scraper writes the file \<open>output.csv\<close>, once, exactly when
  it reaches its end with a non-empty accumulator, and writes nothing otherwise; the
  frame written has one row per record of the accumulator, and its header is the list of
  the record field names.
\<close>

theorem csv_written_once:
  "written (trace (snd (run b (RealtorScraper z)))) =
     (if fst (run b (RealtorScraper z)) = Returns () \<and> data (snd (run b (RealtorScraper z))) \<noteq> []
      then [(''output.csv'', DataFrame (data (snd (run b (RealtorScraper z)))))] else []) \<and>
   (data (snd (run b (RealtorScraper z))) \<noteq> [] \<longrightarrow>
      length (rows (DataFrame (data (snd (run b (RealtorScraper z)))))) =
        length (data (snd (run b (RealtorScraper z)))) \<and>
      columns (DataFrame (data (snd (run b (RealtorScraper z))))) =
        [''Property Status'', ''Price'', ''Bed'', ''Bath'', ''Sqft'', ''Lot Size'', ''Address'',
         ''Link''])"
proof (intro conjI impI)
  show "written (trace (snd (run b (RealtorScraper z)))) =
     (if fst (run b (RealtorScraper z)) = Returns () \<and> data (snd (run b (RealtorScraper z))) \<noteq> []
      then [(''output.csv'', DataFrame (data (snd (run b (RealtorScraper z)))))] else [])"
    by (rule run_written) (simp add: RealtorScraper_def)
  show "length (rows (DataFrame (data (snd (run b (RealtorScraper z)))))) =
        length (data (snd (run b (RealtorScraper z))))"
    by (rule DataFrame_rows)
  assume "data (snd (run b (RealtorScraper z))) \<noteq> []"
  then show "columns (DataFrame (data (snd (run b (RealtorScraper z))))) = field_names"
    using run_keys by (rule DataFrame_columns) simp
qed

text \<open>
  Claim C8. Whatever way the loop of \<^verbatim>\<open>run\<close> ends, the trace of the run is the
  navigations of the loop, then the one call of \<^verbatim>\<open>driver.quit()\<close>, then at most the
  write of the CSV file. When the loop ends with an exception, or \<^verbatim>\<open>quit\<close> itself
  raises, nothing is written and the run does not return normally: the exception leaves
  \<^verbatim>\<open>run\<close> after the browser was released.
\<close>

theorem driver_quit_on_every_exit:
  "\<exists>gets post.
     trace (snd (while_page b s)) = trace s @ gets \<and> set gets \<subseteq> range Get \<and>
     trace (snd (run b s)) = trace s @ gets @ Quit # post \<and>
     (post = [] \<or> post = [ToCsv ''output.csv'' (DataFrame (data (snd (run b s))))]) \<and>
     (fst (while_page b s) \<noteq> Returns () \<longrightarrow> post = [] \<and> fst (run b s) \<noteq> Returns ()) \<and>
     (quit_outcome b \<noteq> Returns () \<longrightarrow> post = [] \<and> fst (run b s) = quit_outcome b)"
proof (cases "while_page b s")
  case (Pair r1 s1)
  from while_page_gets [of b s] Pair obtain gets where
    g: "trace s1 = trace s @ gets" "set gets \<subseteq> range Get" by auto
  show ?thesis
  proof (cases "r1 = Returns () \<and> quit_outcome b = Returns ()")
    case True
    let ?post = "if data s1 \<noteq> [] then [ToCsv ''output.csv'' (DataFrame (data s1))] else []"
    have "run b s = (Returns (), s1\<lparr>trace := trace s1 @ Quit # ?post\<rparr>)"
      using run_after_loop [OF Pair] True by simp
    then show ?thesis using Pair g True
      by (intro exI [of _ gets] exI [of _ ?post]) simp
  next
    case False
    have r: "run b s = (case quit_outcome b of Raises e \<Rightarrow> Raises e | Returns u \<Rightarrow> r1,
           s1\<lparr>trace := trace s1 @ [Quit]\<rparr>)"
      by (simp only: run_after_loop [OF Pair] False if_False)
    have ne: "(case quit_outcome b of Raises e \<Rightarrow> Raises e | Returns u \<Rightarrow> r1) \<noteq> Returns ()"
      using False by (cases "quit_outcome b") auto
    have q: "quit_outcome b \<noteq> Returns () \<Longrightarrow>
        (case quit_outcome b of Raises e \<Rightarrow> Raises e | Returns u \<Rightarrow> r1) = quit_outcome b"
      by (cases "quit_outcome b") auto
    show ?thesis using Pair g r ne q
      by (intro exI [of _ gets] exI [of _ "[]"]) simp
  qed
qed

text \<open>
  Claim C9. Every record that \<^verbatim>\<open>scrape_data\<close> appends, and so every record of the
  accumulator of a run, has the same eight keys in the same order, and every CSV file a
  run writes has exactly these as its columns.
\<close>

theorem records_share_keys:
  "(\<exists>new. data (snd (scrape_data b s)) = data s @ new \<and>
      (\<forall>r\<in>set new. map fst r =
         [''Property Status'', ''Price'', ''Bed'', ''Bath'', ''Sqft'', ''Lot Size'', ''Address'',
          ''Link''])) \<and>
   (\<forall>r\<in>set (data (snd (run b (RealtorScraper z)))). map fst r =
      [''Property Status'', ''Price'', ''Bed'', ''Bath'', ''Sqft'', ''Lot Size'', ''Address'',
       ''Link'']) \<and>
   (\<forall>name df. (name, df) \<in> set (written (trace (snd (run b (RealtorScraper z))))) \<longrightarrow>
      columns df =
        [''Property Status'', ''Price'', ''Bed'', ''Bath'', ''Sqft'', ''Lot Size'', ''Address'',
         ''Link''])"
proof (intro conjI allI impI)
  show "\<exists>new. data (snd (scrape_data b s)) = data s @ new \<and> (\<forall>r\<in>set new. map fst r = field_names)"
    by (rule scrape_data_appends)
  show k: "\<forall>r\<in>set (data (snd (run b (RealtorScraper z)))). map fst r = field_names"
    by (rule run_keys)
  fix name df
  assume "(name, df) \<in> set (written (trace (snd (run b (RealtorScraper z)))))"
  moreover have "written (trace (snd (run b (RealtorScraper z)))) =
     (if fst (run b (RealtorScraper z)) = Returns () \<and> data (snd (run b (RealtorScraper z))) \<noteq> []
      then [(''output.csv'', DataFrame (data (snd (run b (RealtorScraper z)))))] else [])"
    by (rule run_written) (simp add: RealtorScraper_def)
  ultimately have "data (snd (run b (RealtorScraper z))) \<noteq> [] \<and>
      df = DataFrame (data (snd (run b (RealtorScraper z))))"
    by (auto split: if_splits)
  then show "columns df = field_names"
    using k DataFrame_columns [of "data (snd (run b (RealtorScraper z)))" field_names] by simp
qed

section \<open>The properties on example runs\<close>

theorem scrape_data_never_raises_witness:
  "scrape_data empty_page (RealtorScraper 75034) = (Returns (), RealtorScraper 75034) \<and>
   scrape_data broken_page (RealtorScraper 75034) = (Returns (), RealtorScraper 75034) \<and>
   fst (scrape_data shop (RealtorScraper 75034)) = Returns ()"
proof -
  let ?s = "RealtorScraper 75034"
  have e: "elements_at empty_page (location ?s) = Returns []" by (simp add: empty_page_def)
  have b: "elements_at broken_page (location ?s) = Raises Exception" by (simp add: broken_page_def)
  have n: "\<not> page_interrupted (elements_at shop (location ?s))"
    by (simp add: shop_def page_interrupted_def interrupted_def land_listing_def
        unpriced_listing_def stale_listing_def full_listing_def)
  show ?thesis
    using scrape_data_never_raises [of empty_page ?s] scrape_data_never_raises [of broken_page ?s]
      scrape_data_never_raises [of shop ?s] e b n
    by simp
qed

lemma loop_body_eval:
  "loop_body b s =
     (case load_page b 3 s of
        (Returns True, s1) \<Rightarrow>
          (case scrape_data b s1 of
             (Returns u, s2) \<Rightarrow> (Returns True, s2\<lparr>page := page s2 + 1\<rparr>)
           | (Raises e, s2) \<Rightarrow> (Raises e, s2))
      | (Returns False, s1) \<Rightarrow> (Returns False, s1)
      | (Raises e, s1) \<Rightarrow> (Raises e, s1))"
  by (simp add: loop_body_def bind_def call_def next_page_def
      split: prod.splits outcome.splits bool.splits)

lemma load_page_first:
  assumes "loads (attempt_of b (get_page_url s) 1)"
  shows "load_page b 3 s =
    (Returns True, s\<lparr>location := Some (get_page_url s), trace := trace s @ [Get (get_page_url s)]\<rparr>)"
proof -
  have "[1..3] = 1 # [2..(3::int)]" by (simp add: upto_rec1)
  then show ?thesis
    using attempt_load_loads_trace [OF assms, of s] by (simp add: load_page_def)
qed

lemma while_page_all_loaded:
  assumes "\<forall>loc. \<not> page_interrupted (elements_at b loc)"
  shows "(\<forall>p. page s \<le> p \<and> p \<le> 5 \<longrightarrow> fst (load_page b 3 (s\<lparr>page := p\<rparr>)) = Returns True) \<longrightarrow>
     page s \<le> 6 \<longrightarrow>
     page (snd (while_page b s)) = 6 \<and> fst (while_page b s) = Returns ()"
proof (induction s rule: while_page_cases [where b = b])
  case (stop s)
  then show ?case by (auto simp: while_page_stop)
next
  case (continue s s1)
  note t = loop_body_True [OF continue(2)]
  show ?case
  proof (intro impI)
    assume a: "\<forall>p. page s \<le> p \<and> p \<le> 5 \<longrightarrow> fst (load_page b 3 (s\<lparr>page := p\<rparr>)) = Returns True"
      and "page s \<le> 6"
    have "\<forall>p. page s1 \<le> p \<and> p \<le> 5 \<longrightarrow> fst (load_page b 3 (s1\<lparr>page := p\<rparr>)) = Returns True"
    proof (intro allI impI)
      fix p assume p: "page s1 \<le> p \<and> p \<le> 5"
      have "fst (load_page b 3 (s1\<lparr>page := p\<rparr>)) = fst (load_page b 3 (s\<lparr>page := p\<rparr>))"
        using t by (intro load_page_fst_state) simp_all
      with a p t show "fst (load_page b 3 (s1\<lparr>page := p\<rparr>)) = Returns True" by simp
    qed
    moreover have "page s1 \<le> 6" using t continue(1) by simp
    ultimately have "page (snd (while_page b s1)) = 6 \<and> fst (while_page b s1) = Returns ()"
      using continue(3) by blast
    then show "page (snd (while_page b s)) = 6 \<and> fst (while_page b s) = Returns ()"
      using continue(1,2) by (simp add: while_page_continue)
  qed
next
  case (break s s1)
  have "fst (load_page b 3 s) = Returns False" using loop_body_False [OF break(2)] by simp
  moreover have "s\<lparr>page := page s\<rparr> = s" by simp
  ultimately show ?case using break(1) by (metis outcome.inject order_refl)
next
  case (raise s e s1)
  show ?case
  proof (intro impI)
    assume a: "\<forall>p. page s \<le> p \<and> p \<le> 5 \<longrightarrow> fst (load_page b 3 (s\<lparr>page := p\<rparr>)) = Returns True"
    have "s\<lparr>page := page s\<rparr> = s" by simp
    with a raise(1) have l: "fst (load_page b 3 s) = Returns True" by (metis order_refl)
    obtain s0 where l0: "load_page b 3 s = (Returns True, s0)"
      using l by (cases "load_page b 3 s") simp
    have "fst (scrape_data b s0) = Returns ()"
      using assms by (intro scrape_data_returns) simp
    then obtain s2 where "scrape_data b s0 = (Returns (), s2)"
      by (cases "scrape_data b s0") simp
    with l0 raise(2) have False by (simp add: loop_body_eval)
    then show "page (snd (while_page b s)) = 6 \<and> fst (while_page b s) = Returns ()" ..
  qed
qed

lemma full_listing_extracted: "\<exists>r. extract_listing full_listing = Returns r"
  by (simp add: extract_listing_def full_listing_def)

lemma land_listing_skipped: "scrape_prop land_listing s = (Returns (), s)"
proof -
  have "extract_listing land_listing = Raises Exception"
    by (simp add: extract_listing_def land_listing_def full_listing_def)
  then show ?thesis
    by (simp add: scrape_prop_reached land_listing_def full_listing_def)
qed

lemma unpriced_listing_skipped: "scrape_prop unpriced_listing s = (Returns (), s)"
proof -
  have "extract_listing unpriced_listing = Raises Exception"
    by (simp add: extract_listing_def unpriced_listing_def full_listing_def)
  then show ?thesis
    by (simp add: scrape_prop_reached unpriced_listing_def full_listing_def)
qed

lemma stale_listing_aborts: "scrape_prop stale_listing s = (Raises Exception, s)"
  by (simp add: scrape_prop_def bind_def call_def stale_listing_def full_listing_def)

lemma full_listing_appended:
  assumes "extract_listing full_listing = Returns r"
  shows "scrape_prop full_listing s = (Returns (), s\<lparr>data := data s @ [r]\<rparr>)"
  using assms by (simp add: scrape_prop_reached full_listing_def)

lemma scrape_data_shop:
  assumes "extract_listing full_listing = Returns r"
  shows "scrape_data shop s = (Returns (), s\<lparr>data := data s @ [r]\<rparr>)"
  by (simp add: scrape_data_def try_except_def bind_def call_def log_only_def shop_def
      land_listing_skipped unpriced_listing_skipped stale_listing_aborts
      full_listing_appended [OF assms])

lemma loop_body_shop:
  assumes "extract_listing full_listing = Returns r"
  shows "loop_body shop s =
    (Returns True, s\<lparr>page := page s + 1, data := data s @ [r],
       location := Some (get_page_url s), trace := trace s @ [Get (get_page_url s)]\<rparr>)"
proof -
  have "loads (attempt_of shop (get_page_url s) 1)"
    by (simp add: shop_def loads_def ok_attempt_def)
  then show ?thesis
    by (simp add: loop_body_eval load_page_first scrape_data_shop [OF assms])
qed

lemma while_page_shop:
  assumes "extract_listing full_listing = Returns r"
  shows "page s \<le> 6 \<longrightarrow>
    fst (while_page shop s) = Returns () \<and>
    data (snd (while_page shop s)) = data s @ replicate (nat (6 - page s)) r"
proof (induction s rule: while_page_cases [where b = shop])
  case (stop s)
  then show ?case by (auto simp: while_page_stop)
next
  case (continue s s1)
  have s1: "s1 = s\<lparr>page := page s + 1, data := data s @ [r],
       location := Some (get_page_url s), trace := trace s @ [Get (get_page_url s)]\<rparr>"
    using continue(2) loop_body_shop [OF assms, of s] by simp
  have "nat (6 - page s) = Suc (nat (6 - (page s + 1)))" using continue(1) by simp
  then have "data s @ replicate (nat (6 - page s)) r =
      (data s @ [r]) @ replicate (nat (6 - (page s + 1))) r" by simp
  then show ?case using continue(1,2,3) s1 by (simp add: while_page_continue)
next
  case (break s s1)
  then show ?case using loop_body_shop [OF assms, of s] by simp
next
  case (raise s e s1)
  then show ?case using loop_body_shop [OF assms, of s] by simp
qed

lemma load_page_dead: "fst (load_page dead 3 s) = Returns False"
  unfolding load_page_def for_retry_all_fail
  by (simp add: dead_def fails_def timeout_attempt_def)

lemma while_page_dead:
  assumes "page s \<le> 5"
  shows "while_page dead s = (Returns (), snd (load_page dead 3 s))"
proof -
  obtain s1 where "load_page dead 3 s = (Returns False, s1)"
    using load_page_dead [of s] by (cases "load_page dead 3 s") simp
  then have "loop_body dead s = (Returns False, s1) \<and> snd (load_page dead 3 s) = s1"
    by (simp add: loop_body_eval)
  then show ?thesis using assms while_page_break by metis
qed

lemma scrape_data_ctrl_c:
  assumes "extract_listing full_listing = Returns r"
  shows "scrape_data ctrl_c s = (Raises KeyboardInterrupt, s\<lparr>data := data s @ [r]\<rparr>)"
proof -
  have "scrape_prop (full_listing\<lparr>pause := Raises KeyboardInterrupt\<rparr>) (s\<lparr>data := data s @ [r]\<rparr>) =
      (Raises KeyboardInterrupt, s\<lparr>data := data s @ [r]\<rparr>)"
    by (simp add: scrape_prop_def bind_def call_def full_listing_def)
  then show ?thesis
    by (simp add: scrape_data_def try_except_def bind_def call_def log_only_def ctrl_c_def
      full_listing_appended [OF assms])
qed

lemma while_page_ctrl_c:
  assumes "extract_listing full_listing = Returns r" and "page s \<le> 5"
  shows "while_page ctrl_c s =
    (Raises KeyboardInterrupt, s\<lparr>data := data s @ [r],
       location := Some (get_page_url s), trace := trace s @ [Get (get_page_url s)]\<rparr>)"
proof -
  have "loads (attempt_of ctrl_c (get_page_url s) 1)"
    by (simp add: ctrl_c_def loads_def ok_attempt_def)
  then have "loop_body ctrl_c s =
    (Raises KeyboardInterrupt, s\<lparr>data := data s @ [r],
       location := Some (get_page_url s), trace := trace s @ [Get (get_page_url s)]\<rparr>)"
    by (simp add: loop_body_eval load_page_first scrape_data_ctrl_c [OF assms(1)])
  with assms(2) show ?thesis by (rule while_page_raise)
qed

theorem run_loop_bounded_witness:
  "bounded_loop 5 dead (RealtorScraper 75034) = Some (while_page dead (RealtorScraper 75034)) \<and>
   page (snd (while_page dead (RealtorScraper 75034))) = 1 \<and>
   fst (while_page dead (RealtorScraper 75034)) = Returns () \<and>
   fst (load_page dead 3 (snd (while_page dead (RealtorScraper 75034)))) = Returns False \<and>
   bounded_loop 5 shop (RealtorScraper 75034) = Some (while_page shop (RealtorScraper 75034)) \<and>
   page (snd (while_page shop (RealtorScraper 75034))) = 6 \<and>
   fst (while_page shop (RealtorScraper 75034)) = Returns () \<and>
   fst (load_page shop 3 ((RealtorScraper 75034)\<lparr>page := 5\<rparr>)) = Returns True"
proof -
  let ?s = "RealtorScraper 75034"
  have p1: "page ?s = 1" by (simp add: RealtorScraper_def)
  have wd: "while_page dead ?s = (Returns (), snd (load_page dead 3 ?s))"
    by (rule while_page_dead) (simp add: p1)
  have pd: "page (snd (while_page dead ?s)) = 1"
    using load_page_keeps [of page dead 3 ?s] by (simp add: wd p1)
  have rd: "fst (while_page dead ?s) \<noteq> Raises KeyboardInterrupt" by (simp add: wd)
  have ni: "\<forall>loc. \<not> page_interrupted (elements_at shop loc)"
    by (simp add: shop_def page_interrupted_def interrupted_def land_listing_def
        unpriced_listing_def stale_listing_def full_listing_def)
  have ld: "\<forall>p. page ?s \<le> p \<and> p \<le> 5 \<longrightarrow> fst (load_page shop 3 (?s\<lparr>page := p\<rparr>)) = Returns True"
    by (simp add: load_page_first shop_def loads_def ok_attempt_def)
  have ps: "page (snd (while_page shop ?s)) = 6"
    using while_page_all_loaded [OF ni, of ?s] ld p1 by simp
  have five: "(1::int) \<le> 5 \<and> (5::int) < 6" by simp
  show ?thesis
    using run_loop_bounded [OF p1, of dead] run_loop_bounded [OF p1, of shop] pd rd ps five
    by simp
qed

theorem csv_written_once_witness:
  "written (trace (snd (run shop (RealtorScraper 75034)))) =
     [(''output.csv'', DataFrame (data (snd (run shop (RealtorScraper 75034)))))] \<and>
   length (data (snd (run shop (RealtorScraper 75034)))) = 5 \<and>
   length (rows (DataFrame (data (snd (run shop (RealtorScraper 75034)))))) = 5 \<and>
   columns (DataFrame (data (snd (run shop (RealtorScraper 75034))))) =
     [''Property Status'', ''Price'', ''Bed'', ''Bath'', ''Sqft'', ''Lot Size'', ''Address'',
      ''Link''] \<and>
   data (snd (run dead (RealtorScraper 75034))) = [] \<and>
   written (trace (snd (run dead (RealtorScraper 75034)))) = []"
proof -
  let ?s = "RealtorScraper 75034"
  have p1: "page ?s = 1" and d0: "data ?s = []" by (simp_all add: RealtorScraper_def)
  obtain r where r: "extract_listing full_listing = Returns r"
    using full_listing_extracted by blast
  have ws: "fst (while_page shop ?s) = Returns () \<and>
      data (snd (while_page shop ?s)) = replicate 5 r"
    using while_page_shop [OF r, of ?s] p1 d0 by simp
  obtain s1 where w1: "while_page shop ?s = (Returns (), s1)"
    using ws by (cases "while_page shop ?s") simp
  have rs: "fst (run shop ?s) = Returns ()"
    using run_after_loop [OF w1] by (simp add: shop_def)
  have ds: "length (data (snd (run shop ?s))) = 5" "data (snd (run shop ?s)) \<noteq> []"
    using ws by (simp_all add: run_data)
  have wd: "while_page dead ?s = (Returns (), snd (load_page dead 3 ?s))"
    by (rule while_page_dead) (simp add: p1)
  have dd: "data (snd (run dead ?s)) = []"
    using load_page_keeps [of data dead 3 ?s] by (simp add: run_data wd d0)
  show ?thesis
    using csv_written_once [of shop 75034] csv_written_once [of dead 75034] rs ds dd
    by simp
qed

theorem driver_quit_on_every_exit_witness:
  "fst (while_page ctrl_c (RealtorScraper 75034)) \<noteq> Returns () \<and>
   data (snd (run ctrl_c (RealtorScraper 75034))) \<noteq> [] \<and>
   trace (snd (run ctrl_c (RealtorScraper 75034))) =
     [Get (get_page_url (RealtorScraper 75034)), Quit] \<and>
   fst (run ctrl_c (RealtorScraper 75034)) \<noteq> Returns ()"
proof -
  let ?s = "RealtorScraper 75034"
  have p1: "page ?s \<le> 5" and t0: "trace ?s = []" and d0: "data ?s = []"
    by (simp_all add: RealtorScraper_def)
  obtain r where r: "extract_listing full_listing = Returns r"
    using full_listing_extracted by blast
  note w = while_page_ctrl_c [OF r p1]
  have f: "fst (while_page ctrl_c ?s) \<noteq> Returns ()" by (simp add: w)
  have tw: "trace (snd (while_page ctrl_c ?s)) = [Get (get_page_url ?s)]" by (simp add: w t0)
  have d: "data (snd (run ctrl_c ?s)) \<noteq> []" by (simp add: run_data w)
  from driver_quit_on_every_exit [of ctrl_c ?s] obtain gets post where
    g: "trace (snd (while_page ctrl_c ?s)) = trace ?s @ gets"
      "trace (snd (run ctrl_c ?s)) = trace ?s @ gets @ Quit # post"
      "fst (while_page ctrl_c ?s) \<noteq> Returns () \<longrightarrow> post = [] \<and> fst (run ctrl_c ?s) \<noteq> Returns ()"
    by blast
  have "gets = [Get (get_page_url ?s)]" using g(1) tw t0 by simp
  moreover have "post = [] \<and> fst (run ctrl_c ?s) \<noteq> Returns ()" using g(3) f by simp
  ultimately show ?thesis using g(2) f d t0 by simp
qed

theorem records_share_keys_witness:
  "data (snd (run shop (RealtorScraper 75034))) \<noteq> [] \<and>
   map fst (hd (data (snd (run shop (RealtorScraper 75034))))) =
     [''Property Status'', ''Price'', ''Bed'', ''Bath'', ''Sqft'', ''Lot Size'', ''Address'',
      ''Link''] \<and>
   (\<exists>df. written (trace (snd (run shop (RealtorScraper 75034)))) = [(''output.csv'', df)] \<and>
      columns df =
        [''Property Status'', ''Price'', ''Bed'', ''Bath'', ''Sqft'', ''Lot Size'', ''Address'',
         ''Link''])"
proof -
  let ?s = "RealtorScraper 75034"
  have p1: "page ?s = 1" and d0: "data ?s = []" by (simp_all add: RealtorScraper_def)
  obtain r where r: "extract_listing full_listing = Returns r"
    using full_listing_extracted by blast
  have ws: "fst (while_page shop ?s) = Returns () \<and>
      data (snd (while_page shop ?s)) = replicate 5 r"
    using while_page_shop [OF r, of ?s] p1 d0 by simp
  obtain s1 where w1: "while_page shop ?s = (Returns (), s1)"
    using ws by (cases "while_page shop ?s") simp
  have rs: "fst (run shop ?s) = Returns ()"
    using run_after_loop [OF w1] by (simp add: shop_def)
  have ds: "data (snd (run shop ?s)) \<noteq> []" using ws by (simp add: run_data)
  then have hd: "hd (data (snd (run shop ?s))) \<in> set (data (snd (run shop ?s)))" by simp
  have wr: "written (trace (snd (run shop ?s))) =
      [(''output.csv'', DataFrame (data (snd (run shop ?s))))]"
    using run_written [of ?s shop] rs ds by (simp add: RealtorScraper_def)
  note k = records_share_keys [of shop ?s 75034]
  have k1: "map fst (hd (data (snd (run shop ?s)))) = field_names"
    using k hd by blast
  have k2: "columns (DataFrame (data (snd (run shop ?s)))) = field_names"
    using k wr by simp
  show ?thesis using ds k1 k2 wr by simp
qed

theorem get_page_url_embeds_witness:
  "get_page_url (RealtorScraper 75034) =
     ''https://www.realtor.com/realestateandhomes-search/75034/pg-1'' \<and>
   takeWhile (\<lambda>c. c \<noteq> CHR ''/'') (drop 50 (get_page_url (RealtorScraper 75034))) = ''75034'' \<and>
   get_page_url (RealtorScraper 75034) \<noteq> get_page_url ((RealtorScraper 75034)\<lparr>page := 2\<rparr>)"
proof -
  have z: "str_int (zipcode (RealtorScraper 75034)) = ''75034''"
    by (simp add: RealtorScraper_def str_int_def digits.simps digit_char_def char_of_eq_iff)
  have u: "get_page_url (RealtorScraper 75034) =
     ''https://www.realtor.com/realestateandhomes-search/75034/pg-1''"
    by (simp add: get_page_url_def RealtorScraper_def str_int_def digits.simps digit_char_def char_of_eq_iff)
  have p: "page (RealtorScraper 75034) \<noteq> page ((RealtorScraper 75034)\<lparr>page := 2\<rparr>)"
    by (simp add: RealtorScraper_def)
  note e = get_page_url_embeds [of "RealtorScraper 75034" "(RealtorScraper 75034)\<lparr>page := 2\<rparr>"]
  have tw: "takeWhile (\<lambda>c. c \<noteq> CHR ''/'') (drop 50 (get_page_url (RealtorScraper 75034))) =
      str_int (zipcode (RealtorScraper 75034))"
    using e by blast
  have ne: "get_page_url (RealtorScraper 75034) \<noteq> get_page_url ((RealtorScraper 75034)\<lparr>page := 2\<rparr>)"
    using e p by blast
  show ?thesis
  proof (intro conjI)
    show "get_page_url (RealtorScraper 75034) =
        ''https://www.realtor.com/realestateandhomes-search/75034/pg-1''" by (rule u)
    show "takeWhile (\<lambda>c. c \<noteq> CHR ''/'') (drop 50 (get_page_url (RealtorScraper 75034))) = ''75034''"
      by (simp only: tw z)
    show "get_page_url (RealtorScraper 75034) \<noteq> get_page_url ((RealtorScraper 75034)\<lparr>page := 2\<rparr>)"
      by (rule ne)
  qed
qed

section \<open>load_page and the extraction that follows it\<close>

text \<open>What a listing contributes does not depend on the state it is met in.\<close>

lemma scrape_prop_same:
  assumes "data s = data t"
  shows "fst (scrape_prop p s) = fst (scrape_prop p t) \<and>
     data (snd (scrape_prop p s)) = data (snd (scrape_prop p t))"
  using assms
  by (simp add: scrape_prop_def bind_def call_def try_except_def append_data_def log_only_def
      split: outcome.splits exn.splits)

lemma for_props_same:
  assumes "data s = data t"
  shows "fst (for_props ps s) = fst (for_props ps t) \<and>
     data (snd (for_props ps s)) = data (snd (for_props ps t))"
  using assms
proof (induction ps arbitrary: s t)
  case Nil
  then show ?case by simp
next
  case (Cons p ps)
  obtain r s1 where a: "scrape_prop p s = (r, s1)" by (cases "scrape_prop p s")
  obtain r' t1 where a': "scrape_prop p t = (r', t1)" by (cases "scrape_prop p t")
  have same: "r = r' \<and> data s1 = data t1"
    using scrape_prop_same [OF Cons.prems, of p] a a' by simp
  show ?case
  proof (cases r)
    case (Returns u)
    have "fst (for_props ps s1) = fst (for_props ps t1) \<and>
        data (snd (for_props ps s1)) = data (snd (for_props ps t1))"
      using same by (intro Cons.IH) simp
    moreover have "r' = Returns u" using same Returns by simp
    ultimately show ?thesis using a a' Returns by simp
  next
    case (Raises e)
    moreover have "r' = Raises e" using same Raises by simp
    ultimately show ?thesis using a a' same by simp
  qed
qed

lemma scrape_data_same:
  assumes "location s = location t" and "data s = data t"
  shows "fst (scrape_data b s) = fst (scrape_data b t) \<and>
     data (snd (scrape_data b s)) = data (snd (scrape_data b t))"
proof (cases "elements_at b (location t)")
  case (Raises e)
  then show ?thesis using assms
    by (cases e) (simp_all add: scrape_data_def try_except_def bind_def call_def log_only_def)
next
  case (Returns props)
  obtain r s1 where a: "for_props props s = (r, s1)" by (cases "for_props props s")
  obtain r' t1 where a': "for_props props t = (r', t1)" by (cases "for_props props t")
  have "r = r' \<and> data s1 = data t1"
    using for_props_same [OF assms(2), of props] a a' by simp
  then show ?thesis using Returns assms(1) a a'
    by (simp add: scrape_data_def try_except_def bind_def call_def log_only_def
        split: outcome.splits exn.splits)
qed

lemma attempt_load_delayed:
  assumes "delay (attempt_of b url k) = Returns ()"
  shows "trace (snd (attempt_load b url k s)) = trace s @ [Get url]"
  using assms
  by (simp add: attempt_load_def try_except_def bind_def call_def get_url_def
      split: outcome.splits exn.splits)

text \<open>A prefix of failing attempts whose sleeps return navigates once per attempt.\<close>

lemma for_retry_skip_exact:
  assumes "\<forall>j\<in>set pre. fails (attempt_of b url j) \<and> delay (attempt_of b url j) = Returns ()"
  shows "\<exists>s1. for_retry b url (pre @ rest) s = for_retry b url rest s1 \<and>
     trace s1 = trace s @ replicate (length pre) (Get url)"
  using assms
proof (induction pre arbitrary: s)
  case Nil
  have "for_retry b url ([] @ rest) s = for_retry b url rest s \<and>
     trace s = trace s @ replicate (length ([] :: int list)) (Get url)" by simp
  then show ?case by blast
next
  case (Cons k pre)
  obtain r s0 where a: "attempt_load b url k s = (r, s0)" by (cases "attempt_load b url k s")
  have "fails (attempt_of b url k)" using Cons.prems by simp
  then have r: "r = Returns False" using attempt_load_fails [of b url k s] a by simp
  have t0: "trace s0 = trace s @ [Get url]"
    using attempt_load_delayed [of b url k s] Cons.prems a by simp
  have "\<forall>j\<in>set pre. fails (attempt_of b url j) \<and> delay (attempt_of b url j) = Returns ()"
    using Cons.prems by simp
  from Cons.IH [OF this, of s0] obtain s1 where
    ih: "for_retry b url (pre @ rest) s0 = for_retry b url rest s1"
      "trace s1 = trace s0 @ replicate (length pre) (Get url)" by blast
  have "for_retry b url ((k # pre) @ rest) s = for_retry b url rest s1"
    using a r ih(1) by simp
  moreover have "trace s1 = trace s @ replicate (length (k # pre)) (Get url)"
    using t0 ih(2) by (simp add: replicate_append_same)
  ultimately show ?case by blast
qed

lemma load_page_loads_at_exact:
  assumes h: "1 \<le> k \<and> k \<le> n \<and> loads (attempt_of b (get_page_url s) k) \<and>
        (\<forall>j. 1 \<le> j \<and> j < k \<longrightarrow> fails (attempt_of b (get_page_url s) j))"
    and d: "\<forall>j. 1 \<le> j \<and> j < k \<longrightarrow> delay (attempt_of b (get_page_url s) j) = Returns ()"
  shows "trace (snd (load_page b n s)) = trace s @ replicate (nat k) (Get (get_page_url s))"
proof -
  let ?url = "get_page_url s"
  have split: "[1..n] = [1..k - 1] @ k # [k + 1..n]" using h by (intro upto_split3) simp_all
  have "\<forall>j\<in>set [1..k - 1]. fails (attempt_of b ?url j) \<and> delay (attempt_of b ?url j) = Returns ()"
    using h d by simp
  from for_retry_skip_exact [OF this, of "k # [k + 1..n]" s] obtain s1 where
    sk: "for_retry b ?url ([1..k - 1] @ k # [k + 1..n]) s = for_retry b ?url (k # [k + 1..n]) s1"
      "trace s1 = trace s @ replicate (length [1..k - 1]) (Get ?url)" by blast
  have "attempt_load b ?url k s1 =
      (Returns True, s1\<lparr>location := Some ?url, trace := trace s1 @ [Get ?url]\<rparr>)"
    using h by (intro attempt_load_loads_trace) simp
  then have res: "load_page b n s =
      (Returns True, s1\<lparr>location := Some ?url, trace := trace s1 @ [Get ?url]\<rparr>)"
    using sk(1) split by (simp add: load_page_def)
  have "1 \<le> k" using h by simp
  then have "Suc (nat (k - 1)) = nat k" by linarith
  then have "replicate (nat (k - 1)) (Get ?url) @ [Get ?url] = replicate (nat k) (Get ?url)"
    by (metis replicate_Suc replicate_append_same)
  then show ?thesis using res sk(2) by simp
qed

lemma load_page_all_fail_exact:
  assumes "\<forall>k. 1 \<le> k \<and> k \<le> n \<longrightarrow>
      fails (attempt_of b (get_page_url s) k) \<and> delay (attempt_of b (get_page_url s) k) = Returns ()"
  shows "trace (snd (load_page b n s)) = trace s @ replicate (nat n) (Get (get_page_url s))"
proof -
  let ?url = "get_page_url s"
  have "\<forall>j\<in>set [1..n]. fails (attempt_of b ?url j) \<and> delay (attempt_of b ?url j) = Returns ()"
    using assms by simp
  from for_retry_skip_exact [OF this, of "[]" s] obtain s1 where
    "for_retry b ?url ([1..n] @ []) s = for_retry b ?url [] s1"
    "trace s1 = trace s @ replicate (length [1..n]) (Get ?url)" by blast
  then show ?thesis by (simp add: load_page_def)
qed

lemma loop_body_after_load:
  assumes h: "1 \<le> k \<and> k \<le> 3 \<and> loads (attempt_of b (get_page_url s) k) \<and>
        (\<forall>j. 1 \<le> j \<and> j < k \<longrightarrow> fails (attempt_of b (get_page_url s) j))"
  shows "loop_body b s =
      (case scrape_data b (snd (load_page b 3 s)) of
         (Returns u, s2) \<Rightarrow> (Returns True, s2\<lparr>page := page s2 + 1\<rparr>)
       | (Raises e, s2) \<Rightarrow> (Raises e, s2)) \<and>
     fst (scrape_data b (snd (load_page b 3 s))) =
       fst (scrape_data b (s\<lparr>location := Some (get_page_url s)\<rparr>)) \<and>
     data (snd (scrape_data b (snd (load_page b 3 s)))) =
       data (snd (scrape_data b (s\<lparr>location := Some (get_page_url s)\<rparr>))) \<and>
     data (snd (loop_body b s)) =
       data (snd (scrape_data b (s\<lparr>location := Some (get_page_url s)\<rparr>)))"
proof -
  let ?url = "get_page_url s"
  from load_page_loads_at [OF h] obtain m s1 where
    l: "load_page b 3 s = (Returns True, s1\<lparr>location := Some ?url, trace := trace s1 @ [Get ?url]\<rparr>)"
    by blast
  obtain S where S: "S = s1\<lparr>location := Some ?url, trace := trace s1 @ [Get ?url]\<rparr>" by simp
  have lS: "load_page b 3 s = (Returns True, S)" using l S by simp
  have sn: "snd (load_page b 3 s) = S" using lS by simp
  have loc: "location S = Some ?url" using S by simp
  have "data (snd (load_page b 3 s)) = data s" by (rule load_page_keeps) simp
  then have dat: "data S = data s" by (simp only: sn)
  have lb: "loop_body b s =
      (case scrape_data b S of
         (Returns u, s2) \<Rightarrow> (Returns True, s2\<lparr>page := page s2 + 1\<rparr>)
       | (Raises e, s2) \<Rightarrow> (Raises e, s2))"
    by (simp add: loop_body_eval lS)
  have same: "fst (scrape_data b S) = fst (scrape_data b (s\<lparr>location := Some ?url\<rparr>)) \<and>
      data (snd (scrape_data b S)) = data (snd (scrape_data b (s\<lparr>location := Some ?url\<rparr>)))"
    by (rule scrape_data_same) (simp_all add: loc dat)
  have "data (snd (loop_body b s)) = data (snd (scrape_data b S))"
    unfolding lb by (cases "scrape_data b S") (simp split: outcome.splits)
  with lb same show ?thesis by (simp only: sn)
qed

lemma loop_body_after_failure:
  assumes "fst (load_page b 3 s) = Returns False"
  shows "loop_body b s = (Returns False, snd (load_page b 3 s))"
  using assms by (cases "load_page b 3 s") (simp add: loop_body_eval)

text \<open>
  Claim C3. \<^verbatim>\<open>load_page\<close> with \<open>n\<close> retries never raises an \<open>Exception\<close>, navigates at
  most \<open>n\<close> times, each time to the URL of the current page, and leaves the ZIP code, the
  page counter and the accumulator as they were. If attempt \<open>k\<close> of \<open>1..n\<close> loads the
  page and the attempts before it failed, it returns True at once: the driver is at the
  URL of the page, after at least one and at most \<open>k\<close> navigations (exactly \<open>k\<close> when
  the sleeps of the failed attempts returned). It returns False exactly when all \<open>n\<close>
  attempts fail, after \<open>n\<close> navigations when every sleep returned. In the loop of
  \<^verbatim>\<open>run\<close>, which retries three times, a page that loads at attempt \<open>k\<close> is extracted from
  as if it had loaded at once: \<^verbatim>\<open>scrape_data\<close> runs on the loaded page with the same
  outcome and the same records, and the iteration ends with the page counter
  incremented; a page that fails to load is not extracted from.
\<close>

theorem load_page_retries:
  "fst (load_page b n s) \<noteq> Raises Exception \<and>
   (\<exists>m \<le> nat n. trace (snd (load_page b n s)) = trace s @ replicate m (Get (get_page_url s))) \<and>
   zipcode (snd (load_page b n s)) = zipcode s \<and>
   page (snd (load_page b n s)) = page s \<and>
   data (snd (load_page b n s)) = data s \<and>
   (\<forall>k. 1 \<le> k \<and> k \<le> n \<and> loads (attempt_of b (get_page_url s) k) \<and>
        (\<forall>j. 1 \<le> j \<and> j < k \<longrightarrow> fails (attempt_of b (get_page_url s) j)) \<longrightarrow>
      fst (load_page b n s) = Returns True \<and>
      location (snd (load_page b n s)) = Some (get_page_url s) \<and>
      (\<exists>m \<le> nat k. 0 < m \<and>
         trace (snd (load_page b n s)) = trace s @ replicate m (Get (get_page_url s))) \<and>
      ((\<forall>j. 1 \<le> j \<and> j < k \<longrightarrow> delay (attempt_of b (get_page_url s) j) = Returns ()) \<longrightarrow>
         trace (snd (load_page b n s)) = trace s @ replicate (nat k) (Get (get_page_url s)))) \<and>
   (fst (load_page b n s) = Returns False \<longleftrightarrow>
      (\<forall>k. 1 \<le> k \<and> k \<le> n \<longrightarrow> fails (attempt_of b (get_page_url s) k))) \<and>
   ((\<forall>k. 1 \<le> k \<and> k \<le> n \<longrightarrow> fails (attempt_of b (get_page_url s) k) \<and>
        delay (attempt_of b (get_page_url s) k) = Returns ()) \<longrightarrow>
      trace (snd (load_page b n s)) = trace s @ replicate (nat n) (Get (get_page_url s))) \<and>
   (\<forall>k. 1 \<le> k \<and> k \<le> 3 \<and> loads (attempt_of b (get_page_url s) k) \<and>
        (\<forall>j. 1 \<le> j \<and> j < k \<longrightarrow> fails (attempt_of b (get_page_url s) j)) \<longrightarrow>
      loop_body b s =
        (case scrape_data b (snd (load_page b 3 s)) of
           (Returns u, s2) \<Rightarrow> (Returns True, s2\<lparr>page := page s2 + 1\<rparr>)
         | (Raises e, s2) \<Rightarrow> (Raises e, s2)) \<and>
      fst (scrape_data b (snd (load_page b 3 s))) =
        fst (scrape_data b (s\<lparr>location := Some (get_page_url s)\<rparr>)) \<and>
      data (snd (scrape_data b (snd (load_page b 3 s)))) =
        data (snd (scrape_data b (s\<lparr>location := Some (get_page_url s)\<rparr>))) \<and>
      data (snd (loop_body b s)) =
        data (snd (scrape_data b (s\<lparr>location := Some (get_page_url s)\<rparr>)))) \<and>
   (fst (load_page b 3 s) = Returns False \<longrightarrow>
      loop_body b s = (Returns False, snd (load_page b 3 s)))"
proof -
  let ?url = "get_page_url s"
  have c1: "fst (load_page b n s) \<noteq> Raises Exception"
    unfolding load_page_def by (rule for_retry_not_exception)
  have len: "length [1..n] = nat n" by simp
  have c2: "\<exists>m \<le> nat n. trace (snd (load_page b n s)) = trace s @ replicate m (Get ?url)"
    using for_retry_trace [of "[1..n]" b ?url s] unfolding load_page_def len .
  have c3: "zipcode (snd (load_page b n s)) = zipcode s" by (rule load_page_keeps) simp
  have c4: "page (snd (load_page b n s)) = page s" by (rule load_page_keeps) simp
  have c5: "data (snd (load_page b n s)) = data s" by (rule load_page_keeps) simp
  have c6: "\<forall>k. 1 \<le> k \<and> k \<le> n \<and> loads (attempt_of b ?url k) \<and>
        (\<forall>j. 1 \<le> j \<and> j < k \<longrightarrow> fails (attempt_of b ?url j)) \<longrightarrow>
      fst (load_page b n s) = Returns True \<and>
      location (snd (load_page b n s)) = Some ?url \<and>
      (\<exists>m \<le> nat k. 0 < m \<and> trace (snd (load_page b n s)) = trace s @ replicate m (Get ?url)) \<and>
      ((\<forall>j. 1 \<le> j \<and> j < k \<longrightarrow> delay (attempt_of b ?url j) = Returns ()) \<longrightarrow>
         trace (snd (load_page b n s)) = trace s @ replicate (nat k) (Get ?url))"
  proof (intro allI impI conjI)
    fix k
    assume h: "1 \<le> k \<and> k \<le> n \<and> loads (attempt_of b ?url k) \<and>
        (\<forall>j. 1 \<le> j \<and> j < k \<longrightarrow> fails (attempt_of b ?url j))"
    from load_page_loads_at [OF h] obtain m s1 where
      r: "m < nat k" "trace s1 = trace s @ replicate m (Get ?url)"
        "load_page b n s = (Returns True,
           s1\<lparr>location := Some ?url, trace := trace s1 @ [Get ?url]\<rparr>)"
      by blast
    from r(3) show "fst (load_page b n s) = Returns True" by simp
    from r(3) show "location (snd (load_page b n s)) = Some ?url" by simp
    have "trace (snd (load_page b n s)) = trace s @ replicate (Suc m) (Get ?url)"
      using r(2,3) by (simp add: replicate_append_same)
    moreover have "Suc m \<le> nat k \<and> 0 < Suc m" using r(1) by simp
    ultimately show "\<exists>m \<le> nat k. 0 < m \<and>
        trace (snd (load_page b n s)) = trace s @ replicate m (Get ?url)"
      by blast
    assume "\<forall>j. 1 \<le> j \<and> j < k \<longrightarrow> delay (attempt_of b ?url j) = Returns ()"
    with h show "trace (snd (load_page b n s)) = trace s @ replicate (nat k) (Get ?url)"
      by (rule load_page_loads_at_exact)
  qed
  have c7: "fst (load_page b n s) = Returns False \<longleftrightarrow>
      (\<forall>k. 1 \<le> k \<and> k \<le> n \<longrightarrow> fails (attempt_of b ?url k))"
    unfolding load_page_def for_retry_all_fail by auto
  have c8: "(\<forall>k. 1 \<le> k \<and> k \<le> n \<longrightarrow> fails (attempt_of b ?url k) \<and>
        delay (attempt_of b ?url k) = Returns ()) \<longrightarrow>
      trace (snd (load_page b n s)) = trace s @ replicate (nat n) (Get ?url)"
    using load_page_all_fail_exact [of n b s] by blast
  have c9: "\<forall>k. 1 \<le> k \<and> k \<le> 3 \<and> loads (attempt_of b ?url k) \<and>
        (\<forall>j. 1 \<le> j \<and> j < k \<longrightarrow> fails (attempt_of b ?url j)) \<longrightarrow>
      loop_body b s =
        (case scrape_data b (snd (load_page b 3 s)) of
           (Returns u, s2) \<Rightarrow> (Returns True, s2\<lparr>page := page s2 + 1\<rparr>)
         | (Raises e, s2) \<Rightarrow> (Raises e, s2)) \<and>
      fst (scrape_data b (snd (load_page b 3 s))) =
        fst (scrape_data b (s\<lparr>location := Some ?url\<rparr>)) \<and>
      data (snd (scrape_data b (snd (load_page b 3 s)))) =
        data (snd (scrape_data b (s\<lparr>location := Some ?url\<rparr>))) \<and>
      data (snd (loop_body b s)) = data (snd (scrape_data b (s\<lparr>location := Some ?url\<rparr>)))"
    using loop_body_after_load [of _ b s] by blast
  have c10: "fst (load_page b 3 s) = Returns False \<longrightarrow>
      loop_body b s = (Returns False, snd (load_page b 3 s))"
    using loop_body_after_failure [of b s] by blast
  show ?thesis
    by (intro conjI) (rule c1 c2 c3 c4 c5 c6 c7 c8 c9 c10)+
qed

lemma scrape_data_flaky:
  assumes "extract_listing full_listing = Returns r"
  shows "scrape_data flaky s = (Returns (), s\<lparr>data := data s @ [r]\<rparr>)"
  by (simp add: scrape_data_def try_except_def bind_def call_def log_only_def flaky_def
      full_listing_appended [OF assms])

theorem load_page_retries_witness:
  "fst (load_page flaky 3 (RealtorScraper 75034)) = Returns True \<and>
   location (snd (load_page flaky 3 (RealtorScraper 75034))) =
     Some (get_page_url (RealtorScraper 75034)) \<and>
   trace (snd (load_page flaky 3 (RealtorScraper 75034))) =
     [Get (get_page_url (RealtorScraper 75034)), Get (get_page_url (RealtorScraper 75034))] \<and>
   fst (loop_body flaky (RealtorScraper 75034)) = Returns True \<and>
   page (snd (loop_body flaky (RealtorScraper 75034))) = 2 \<and>
   length (data (snd (loop_body flaky (RealtorScraper 75034)))) = 1 \<and>
   fst (load_page dead 3 (RealtorScraper 75034)) = Returns False \<and>
   trace (snd (load_page dead 3 (RealtorScraper 75034))) =
     replicate 3 (Get (get_page_url (RealtorScraper 75034))) \<and>
   loop_body dead (RealtorScraper 75034) =
     (Returns False, snd (load_page dead 3 (RealtorScraper 75034)))"
proof -
  let ?s = "RealtorScraper 75034"
  let ?url = "get_page_url ?s"
  have h: "1 \<le> (2::int) \<and> (2::int) \<le> 3 \<and> loads (attempt_of flaky ?url 2) \<and>
        (\<forall>j. 1 \<le> j \<and> j < 2 \<longrightarrow> fails (attempt_of flaky ?url j))"
    by (auto simp: flaky_def loads_def fails_def ok_attempt_def timeout_attempt_def)
  have hd: "\<forall>j. 1 \<le> j \<and> j < (2::int) \<longrightarrow> delay (attempt_of flaky ?url j) = Returns ()"
    by (simp add: flaky_def ok_attempt_def timeout_attempt_def)
  have d: "\<forall>k. 1 \<le> k \<and> k \<le> 3 \<longrightarrow> fails (attempt_of dead ?url k) \<and>
      delay (attempt_of dead ?url k) = Returns ()"
    by (simp add: dead_def fails_def timeout_attempt_def)
  have t: "trace ?s = []" and p: "page ?s = 1" and d0: "data ?s = []"
    by (simp_all add: RealtorScraper_def)
  obtain r where r: "extract_listing full_listing = Returns r"
    using full_listing_extracted by blast
  note f = load_page_retries [of flaky 3 ?s]
  have f1: "fst (load_page flaky 3 ?s) = Returns True \<and>
      location (snd (load_page flaky 3 ?s)) = Some ?url \<and>
      trace (snd (load_page flaky 3 ?s)) = trace ?s @ replicate (nat 2) (Get ?url)"
    using f h hd by blast
  have f2: "page (snd (load_page flaky 3 ?s)) = page ?s" using f by blast
  have f3: "loop_body flaky ?s =
        (case scrape_data flaky (snd (load_page flaky 3 ?s)) of
           (Returns u, s2) \<Rightarrow> (Returns True, s2\<lparr>page := page s2 + 1\<rparr>)
         | (Raises e, s2) \<Rightarrow> (Raises e, s2)) \<and>
      data (snd (loop_body flaky ?s)) =
        data (snd (scrape_data flaky (?s\<lparr>location := Some ?url\<rparr>)))"
    using f h by blast
  have l1: "fst (loop_body flaky ?s) = Returns True \<and> page (snd (loop_body flaky ?s)) = 2"
    using f3 f2 p by (simp add: scrape_data_flaky [OF r])
  have "data (snd (loop_body flaky ?s)) =
        data (snd (scrape_data flaky (?s\<lparr>location := Some ?url\<rparr>)))"
    using f3 by blast
  then have l2: "length (data (snd (loop_body flaky ?s))) = 1"
    by (simp add: scrape_data_flaky [OF r] d0)
  note g = load_page_retries [of dead 3 ?s]
  have g1: "fst (load_page dead 3 ?s) = Returns False" using g d by blast
  have g2: "trace (snd (load_page dead 3 ?s)) = trace ?s @ replicate (nat 3) (Get ?url)"
    using g d by blast
  have g3: "loop_body dead ?s = (Returns False, snd (load_page dead 3 ?s))"
    using g g1 by blast
  have two: "replicate 2 (Get ?url) = [Get ?url, Get ?url]"
    by (simp add: numeral_2_eq_2)
  show ?thesis
    using f1 l1 l2 g1 g2 g3 by (simp add: t two)
qed

end
